theory Spec2Isabelle
  imports Complex_Main "HOL-Library.AList" "HOL-Library.FSet"
begin

section \<open>Endgame benchmark generator (tbgen.py)\<close>

text \<open>
  The generator draws random placements of a fixed set of pieces, keeps those that are a
  win for the side to move inside the 50-move budget, and annotates each kept position
  with its optimal replies. The chess rules and the two tablebases are libraries outside
  the program; they appear here as records of functions, so that every statement below
  holds for whatever rules engine and tablebases the program is run with.
\<close>

subsection \<open>Data model\<close>

text \<open>The exceptions the program can raise: a failed \<open>assert\<close>; the
  \<open>ValueError\<close> of \<open>max\<close> on an empty sequence, of a piece symbol that is not one, or
  of a format specification that \<open>str.format\<close> cannot apply; and the \<open>KeyError\<close> and
  \<open>IndexError\<close> of \<open>str.format\<close> for a field it is not given.\<close>

datatype error = AssertionError | ValueError | KeyError | IndexError

text \<open>
  A \<open>chess.Board\<close>. The program reads and assigns one attribute itself,
  \<open>halfmove_clock\<close>; everything else (piece map, side to move, move stack) is only
  touched through the library and stays abstract in \<open>position\<close>.
\<close>

record 'p board =
  halfmove_clock :: int
  position :: 'p

text \<open>
  The library calls the program makes. \<open>from_symbol\<close> is \<open>None\<close> where
  \<open>chess.Piece.from_symbol\<close> raises; \<open>is_game_over\<close> is the call with
  \<open>claim_draw=True\<close>; \<open>str_format\<close> is \<open>id_format.format(code=..., n=...)\<close>,
  which raises for a format string (given with \<open>--id_format\<close>) that names another
  field or has a format specification that does not fit. The two tablebases answer every
  probe with an integer, as their interface says.
\<close>

record ('p, 'm, 'pc) externals =
  from_symbol :: "char \<Rightarrow> 'pc option"
  set_piece_map :: "(nat \<times> 'pc) list \<Rightarrow> 'p"
  is_valid :: "'p board \<Rightarrow> bool"
  fen :: "'p board \<Rightarrow> string"
  legal_moves :: "'p board \<Rightarrow> 'm list"
  push :: "'p board \<Rightarrow> 'm \<Rightarrow> 'p board"
  pop :: "'p board \<Rightarrow> 'p board"
  is_game_over :: "'p board \<Rightarrow> bool"
  is_checkmate :: "'p board \<Rightarrow> bool"
  str_format :: "string \<Rightarrow> string \<Rightarrow> nat \<Rightarrow> error + string"

text \<open>The Syzygy tablebase answers \<open>probe_dtz\<close>, the Gaviota tablebase \<open>probe_dtm\<close>.\<close>

record 'p tablebases =
  probe_dtz :: "'p board \<Rightarrow> int"
  probe_dtm :: "'p board \<Rightarrow> int"

text \<open>The fields of a \<open>Generator\<close> object. \<open>stats\<close> is a \<open>collections.Counter\<close>:
  a key never incremented counts zero.\<close>

record 'pc generator =
  code :: string
  pieces :: "'pc list"
  id_format :: string
  unique_boards :: "string fset"
  stats :: "string \<Rightarrow> nat"

text \<open>The dictionary \<open>epd_info\<close>: a key that the program may leave out is an option.
  \<open>R50\<close> is stored with the value \<open>None\<close>, so only its presence carries information.\<close>

record 'm epd_info =
  epd_id :: string
  hmvc :: "int option"
  bm :: "'m list"
  am :: "'m list option"
  dm :: int
  R50 :: "unit option"

subsection \<open>Classifying one reply\<close>

text \<open>
  \<open>_child_dtm_if_lost\<close>: the move is pushed, the position is classified, and the
  \<open>finally\<close> clause pops the move on every way out, the failed assertion included. The
  result is the classification together with the board as the call leaves it.
\<close>

definition child_dtm_if_lost ::
  "('p, 'm, 'pc) externals \<Rightarrow> 'p tablebases \<Rightarrow> 'p board \<Rightarrow> 'm \<Rightarrow> (error + int option) \<times> 'p board"
where
  "child_dtm_if_lost X T b move =
     (let b1 = push X b move;
          res =
            (if is_game_over X b1 then Inr (if is_checkmate X b1 then Some 0 else None)
             else
               let dtz = probe_dtz T b1 in
               if \<not> (halfmove_clock b1 - 100 \<le> dtz \<and> dtz < 0) then Inr None
               else
                 let dtm = probe_dtm T b1 in
                 if dtm < 0 then Inr (Some dtm) else Inl AssertionError)
      in (res, pop X b1))"

subsection \<open>Annotating a position\<close>

text \<open>
  The dictionary comprehension of \<open>_annotate_board\<close> calls \<open>_child_dtm_if_lost\<close> for
  each legal move in turn on the one board object, so the board is threaded through the
  calls; an assertion error in one call ends the loop. A Python dictionary keeps a key
  at the place of its first insertion and takes the value of its last, which is what
  \<open>AList.update\<close> does on an association list.
\<close>

fun children_dtm ::
  "('p, 'm, 'pc) externals \<Rightarrow> 'p tablebases \<Rightarrow> 'p board \<Rightarrow> 'm list \<Rightarrow>
   ('m \<times> int option) list \<Rightarrow> (error + ('m \<times> int option) list) \<times> 'p board"
where
  "children_dtm X T b [] acc = (Inr acc, b)"
| "children_dtm X T b (move # moves) acc =
     (case child_dtm_if_lost X T b move of
        (Inl e, b') \<Rightarrow> (Inl e, b')
      | (Inr dtm, b') \<Rightarrow> children_dtm X T b' moves (AList.update move dtm acc))"

text \<open>
  \<open>int(n / 2)\<close>: the true division yields the float \<open>n / 2\<close>, which is exact for
  \<open>\<bar>n\<bar> < 2^53\<close> (mate distances are a few hundred plies at most), and \<open>int\<close> cuts the
  fraction off toward zero.
\<close>

definition int_of_half :: "int \<Rightarrow> int" where
  "int_of_half n = (if 0 \<le> n then n div 2 else - ((- n) div 2))"

text \<open>
  \<open>_annotate_board\<close>. The identifier is formatted first, and an exception of
  \<open>str.format\<close> ends the call there. \<open>max\<close> of an empty sequence raises
  \<open>ValueError\<close>; the comparison \<open>dtm == best_child_dtm\<close> is false for \<open>None\<close>.
\<close>

definition annotate_board ::
  "('p, 'm, 'pc) externals \<Rightarrow> 'p tablebases \<Rightarrow> 'pc generator \<Rightarrow> 'p board \<Rightarrow>
   (error + 'm epd_info) \<times> 'p board"
where
  "annotate_board X T g b =
     (case str_format X (id_format g) (code g) (fcard (unique_boards g)) of
        Inl e \<Rightarrow> (Inl e, b)
      | Inr ident \<Rightarrow>
     (let clock = (if halfmove_clock b \<noteq> 0 then Some (halfmove_clock b) else None);
          moves = legal_moves X b
      in case children_dtm X T b moves [] of
           (Inl e, b') \<Rightarrow> (Inl e, b')
         | (Inr children, b') \<Rightarrow>
             (case List.map_filter snd children of
                [] \<Rightarrow> (Inl ValueError, b')
              | d # ds \<Rightarrow>
                  let best_child_dtm = fold max ds d;
                      optimal_moves = [move. (move, dtm) \<leftarrow> children, dtm = Some best_child_dtm];
                      bad_moves = [move. (move, dtm) \<leftarrow> children, dtm = None];
                      parent_dtm = probe_dtm T b'
                  in if \<not> (0 < parent_dtm \<and> parent_dtm \<le> 1 - best_child_dtm)
                     then (Inl AssertionError, b')
                     else (Inr \<lparr>epd_id = ident, hmvc = clock, bm = optimal_moves,
                                am = (if bad_moves \<noteq> [] then Some bad_moves else None),
                                dm = int_of_half (parent_dtm + 1),
                                R50 = (if parent_dtm < 1 - best_child_dtm
                                       then Some () else None)\<rparr>, b'))))"

subsection \<open>Sampling positions\<close>

text \<open>
  The random choices of one turn of the loop in \<open>_generate_boards\<close>: the squares that
  \<open>random.sample\<close> returns, and the raw randomness that \<open>random.randint\<close> consumes.
  \<open>randint a b\<close> returns an integer of the range from \<open>a\<close> to \<open>b\<close>, both included; it
  is only called with \<open>a \<le> b\<close>.
\<close>

record draw =
  squares :: "nat list"
  entropy :: nat

definition randint :: "int \<Rightarrow> int \<Rightarrow> nat \<Rightarrow> int" where
  "randint a b e = a + int (e mod nat (b - a + 1))"

definition increment :: "(string \<Rightarrow> nat) \<Rightarrow> string \<Rightarrow> (string \<Rightarrow> nat)" where
  "increment c k = c(k := c k + 1)"

text \<open>One turn of the loop: the generator's fields after it, and the board it yields if
  it reaches the \<open>yield\<close>. \<open>chess.Board.empty()\<close> has the half-move clock 0.\<close>

definition sample_step ::
  "('p, 'm, 'pc) externals \<Rightarrow> 'p tablebases \<Rightarrow> 'pc generator \<Rightarrow> draw \<Rightarrow>
   'pc generator \<times> 'p board option"
where
  "sample_step X T g d =
     (let b = \<lparr>halfmove_clock = 0, position = set_piece_map X (zip (squares d) (pieces g))\<rparr>
      in if \<not> is_valid X b then (g\<lparr>stats := increment (stats g) ''invalid''\<rparr>, None)
         else
           let dtz = probe_dtz T b in
           if \<not> (0 < dtz \<and> dtz \<le> 100)
           then (g\<lparr>stats := increment (stats g)
                         (if dtz < 0 then ''loss''
                          else if dtz = 0 then ''draw'' else ''cursed_win'')\<rparr>, None)
           else
             let b' = b\<lparr>halfmove_clock := randint 0 (100 - dtz) (entropy d)\<rparr>;
                 board_key = fen X b'
             in if board_key |\<in>| unique_boards g
                then (g\<lparr>stats := increment (stats g) ''duplicate''\<rparr>, None)
                else (g\<lparr>unique_boards := finsert board_key (unique_boards g)\<rparr>, Some b'))"

text \<open>
  The loop never ends by itself; the caller stops pulling. The boards it yields while it
  consumes a given finite run of random choices, in order, with the generator's fields
  afterwards: every board the generator ever yields is in such a list.
\<close>

fun generate_boards ::
  "('p, 'm, 'pc) externals \<Rightarrow> 'p tablebases \<Rightarrow> 'pc generator \<Rightarrow> draw list \<Rightarrow>
   'p board list \<times> 'pc generator"
where
  "generate_boards X T g [] = ([], g)"
| "generate_boards X T g (d # ds) =
     (case sample_step X T g d of
        (g', None) \<Rightarrow> generate_boards X T g' ds
      | (g', Some b) \<Rightarrow>
          (case generate_boards X T g' ds of (bs, g'') \<Rightarrow> (b # bs, g'')))"

subsection \<open>Constructing the generator\<close>

text \<open>
  The pattern \<open>K[QRBNP]+k[qrbnp]*\<close> is a sequence of items: a literal, a character
  class repeated once or more, a character class repeated any number of times.
  \<open>re_rests\<close> lists what can remain of the string after the pattern has matched at its
  start; \<open>re.match\<close> succeeds when the pattern matches at the start of the string,
  whatever follows.
\<close>

datatype re_item = Lit char | PlusOf string | StarOf string

fun star_rests :: "string \<Rightarrow> string \<Rightarrow> string list" where
  "star_rests cs [] = [[]]"
| "star_rests cs (c # s) = (if c \<in> set cs then star_rests cs s @ [c # s] else [c # s])"

fun item_rests :: "re_item \<Rightarrow> string \<Rightarrow> string list" where
  "item_rests (Lit a) [] = []"
| "item_rests (Lit a) (c # s) = (if c = a then [s] else [])"
| "item_rests (PlusOf cs) [] = []"
| "item_rests (PlusOf cs) (c # s) = (if c \<in> set cs then star_rests cs s else [])"
| "item_rests (StarOf cs) s = star_rests cs s"

fun re_rests :: "re_item list \<Rightarrow> string \<Rightarrow> string list" where
  "re_rests [] s = [s]"
| "re_rests (i # is) s = concat (map (re_rests is) (item_rests i s))"

definition re_match :: "re_item list \<Rightarrow> string \<Rightarrow> bool" where
  "re_match p s = (re_rests p s \<noteq> [])"

definition code_pattern :: "re_item list" where
  "code_pattern = [Lit CHR ''K'', PlusOf ''QRBNP'', Lit CHR ''k'', StarOf ''qrbnp'']"

text \<open>\<open>Generator.__init__\<close>: the assertion on the code, then one piece for each
  character of the code.\<close>

definition Generator_init ::
  "('p, 'm, 'pc) externals \<Rightarrow> string \<Rightarrow> string \<Rightarrow> error + 'pc generator"
where
  "Generator_init X c f =
     (if \<not> re_match code_pattern c then Inl AssertionError
      else
        case those (map (from_symbol X) c) of
          None \<Rightarrow> Inl ValueError
        | Some ps \<Rightarrow>
            Inr \<lparr>code = c, pieces = ps, id_format = f, unique_boards = {||},
                 stats = (\<lambda>k. 0)\<rparr>)"

text \<open>
  The shape the material signature is meant to have: one \<open>K\<close>, one or more of
  \<open>QRBNP\<close>, one \<open>k\<close>, any number of \<open>qrbnp\<close>, and nothing else.
\<close>

definition signature_shape :: "string \<Rightarrow> bool" where
  "signature_shape s =
     (case s of
        [] \<Rightarrow> False
      | c # r \<Rightarrow>
          c = CHR ''K'' \<and> takeWhile (\<lambda>x. x \<in> set ''QRBNP'') r \<noteq> [] \<and>
          (case dropWhile (\<lambda>x. x \<in> set ''QRBNP'') r of
             [] \<Rightarrow> False
           | k # bl \<Rightarrow> k = CHR ''k'' \<and> list_all (\<lambda>x. x \<in> set ''qrbnp'') bl))"

subsection \<open>Vocabulary of the statements\<close>

text \<open>The classification of a reply, and the mate distances of the winning replies of a
  position.\<close>

definition reply_class ::
  "('p, 'm, 'pc) externals \<Rightarrow> 'p tablebases \<Rightarrow> 'p board \<Rightarrow> 'm \<Rightarrow> error + int option"
where
  "reply_class X T b move = fst (child_dtm_if_lost X T b move)"

definition winning_dtms :: "('p, 'm, 'pc) externals \<Rightarrow> 'p tablebases \<Rightarrow> 'p board \<Rightarrow> int set" where
  "winning_dtms X T b =
     {d. \<exists>move\<in>set (legal_moves X b). reply_class X T b move = Inr (Some d)}"

subsection \<open>A small rules engine for concrete runs\<close>

text \<open>
  Positions are numbered places; a move names the place it leads to and says whether it
  is a capture or pawn move. As in python-chess, \<open>push\<close> saves the state on a stack,
  adds one to the half-move clock and sets it to zero for a capture or pawn move, and
  \<open>pop\<close> restores the saved state.
\<close>

datatype toy_move = Quiet nat | Zeroing nat

datatype toy_pos = Toy nat "(int \<times> nat) list"

fun place :: "toy_pos board \<Rightarrow> nat" where
  "place b = (case position b of Toy n _ \<Rightarrow> n)"

fun toy_push :: "toy_pos board \<Rightarrow> toy_move \<Rightarrow> toy_pos board" where
  "toy_push b (Quiet n) =
     (case position b of Toy k st \<Rightarrow>
        \<lparr>halfmove_clock = halfmove_clock b + 1, position = Toy n ((halfmove_clock b, k) # st)\<rparr>)"
| "toy_push b (Zeroing n) =
     (case position b of Toy k st \<Rightarrow>
        \<lparr>halfmove_clock = 0, position = Toy n ((halfmove_clock b, k) # st)\<rparr>)"

fun toy_pop :: "toy_pos board \<Rightarrow> toy_pos board" where
  "toy_pop b =
     (case position b of
        Toy n [] \<Rightarrow> b
      | Toy n ((c, k) # st) \<Rightarrow> \<lparr>halfmove_clock = c, position = Toy k st\<rparr>)"

text \<open>Places 0 and 5 have replies; place 1 is checkmate, place 4 stalemate, place 7 not
  a valid position. Placing pieces leads to the place numbered by the sum of their
  squares. A board is written as its place followed by one mark for each unit of the
  clock. The format string \<open>{x}\<close> names a field that is not given, as in Python.\<close>

definition toy :: "(toy_pos, toy_move, char) externals" where
  "toy =
     \<lparr>from_symbol = (\<lambda>c. if c \<in> set ''pnbrqkPNBRQK'' then Some c else None),
      set_piece_map = (\<lambda>ps. Toy (sum_list (map fst ps)) []),
      is_valid = (\<lambda>b. place b \<noteq> 7),
      fen = (\<lambda>b. replicate (place b) CHR ''p'' @ replicate (nat (halfmove_clock b)) CHR ''+''),
      legal_moves =
        (\<lambda>b. if place b = 0 then [Quiet 1, Quiet 2, Zeroing 3]
             else if place b = 5 then [Quiet 2, Quiet 6, Zeroing 3, Quiet 4]
             else []),
      push = toy_push,
      pop = toy_pop,
      is_game_over = (\<lambda>b. place b = 1 \<or> place b = 4),
      is_checkmate = (\<lambda>b. place b = 1),
      str_format =
        (\<lambda>f c n. if f = ''{x}'' then Inl KeyError else Inr (c @ replicate n CHR ''i''))\<rparr>"

definition toy_board :: "int \<Rightarrow> nat \<Rightarrow> toy_pos board" where
  "toy_board c n = \<lparr>halfmove_clock = c, position = Toy n []\<rparr>"

text \<open>Tablebases given by a table over places.\<close>

definition toy_tb :: "(nat \<Rightarrow> int) \<Rightarrow> (nat \<Rightarrow> int) \<Rightarrow> toy_pos tablebases" where
  "toy_tb z m = \<lparr>probe_dtz = (\<lambda>b. z (place b)), probe_dtm = (\<lambda>b. m (place b))\<rparr>"

definition toy_gen :: "char generator" where
  "toy_gen = \<lparr>code = ''KQk'', pieces = ''KQk'', id_format = ''{code}.{n}'',
     unique_boards = {|''ppppp++++++++++''|}, stats = (\<lambda>k. 0)\<rparr>"

text \<open>Three pairs of tablebases for place 5 and its replies: one where the quiet reply to
  place 2 mates fastest, one where that reply is over the budget, and one where every
  reply is over the budget or draws.\<close>

definition tb_fast :: "toy_pos tablebases" where
  "tb_fast = toy_tb (\<lambda>n. if n = 6 then - 95 else - 3)
                    (\<lambda>n. if n = 5 then 2 else if n = 2 then - 1 else - 5)"

definition tb_r50 :: "toy_pos tablebases" where
  "tb_r50 = toy_tb (\<lambda>n. if n = 2 \<or> n = 6 then - 95 else - 3)
                   (\<lambda>n. if n = 5 then 2 else if n = 2 then - 1 else - 5)"

definition tb_none :: "toy_pos tablebases" where
  "tb_none = toy_tb (\<lambda>n. if n = 5 then 100 else if n = 3 then 0 else - 100)
                    (\<lambda>n. if n = 5 then 3 else - 2)"

text \<open>Tablebases in which place 5 is won: with the reply to place 2 one ply over the
  budget of a clock at 7; with a reply that meets the bound and has a positive mate
  distance; and with win distance 1, the capture leading to a win distance of \<open>-100\<close>.\<close>

definition tb_late :: "toy_pos tablebases" where
  "tb_late = toy_tb (\<lambda>n. if n = 5 then 90 else - 93) (\<lambda>n. if n = 5 then 95 else - 94)"

definition tb_clash :: "toy_pos tablebases" where
  "tb_clash = toy_tb (\<lambda>n. if n = 5 then 90 else - 50) (\<lambda>n. if n = 5 then 51 else 1)"

definition tb_edge :: "toy_pos tablebases" where
  "tb_edge = toy_tb (\<lambda>n. if n = 5 then 1 else - 100) (\<lambda>n. if n = 5 then 1 else - 7)"

text \<open>Tablebases and a run of random choices for the sampling loop: place 5 has
  win distance 90, place 6 has 100, place 8 is drawn, place 9 lost, the others are
  cursed wins.\<close>

definition tb_sample :: "toy_pos tablebases" where
  "tb_sample = toy_tb (\<lambda>n. if n = 5 then 90 else if n = 6 then 100 else if n = 8 then 0
                            else if n = 9 then - 4 else 101) (\<lambda>n. 1)"

definition toy_draws :: "draw list" where
  "toy_draws =
     [\<lparr>squares = [0, 1, 4], entropy = 7\<rparr>, \<lparr>squares = [1, 2, 4], entropy = 0\<rparr>,
      \<lparr>squares = [0, 1, 4], entropy = 18\<rparr>, \<lparr>squares = [0, 2, 4], entropy = 5\<rparr>,
      \<lparr>squares = [0, 1, 4], entropy = 10\<rparr>, \<lparr>squares = [1, 3, 4], entropy = 1\<rparr>,
      \<lparr>squares = [2, 3, 4], entropy = 1\<rparr>, \<lparr>squares = [2, 3, 5], entropy = 1\<rparr>]"


section \<open>Properties\<close>

lemma replicate_num: "replicate (numeral k) x = x # replicate (pred_numeral k) x"
  by (simp add: numeral_eq_Suc)

lemmas sampled_eval = sample_step_def toy_def toy_tb_def toy_gen_def toy_board_def randint_def
  Let_def replicate_num

subsection \<open>The move is undone on every way out\<close>

lemma child_board: "snd (child_dtm_if_lost X T b move) = pop X (push X b move)"
  by (simp add: child_dtm_if_lost_def Let_def)

subsection \<open>What makes a reply winning\<close>

text \<open>
  C1, as the code has it. A reply is classified as winning exactly when it checkmates
  (distance 0), or the game goes on, the win distance \<open>v\<close> of the resulting position
  satisfies \<open>c - 100 \<le> v < 0\<close> where \<open>c\<close> is the half-move clock of the resulting
  position (the clock as it stands after the move), and the mate distance there is
  negative (that mate distance is then the distance of the reply). It is classified as
  losing exactly when it ends the game without checkmate, or the game goes on and the
  bound on \<open>v\<close> fails. In the remaining case (bound met, mate distance not negative) the
  call raises the assertion error and classifies nothing.
\<close>

theorem child_dtm_if_lost_classification:
  "(fst (child_dtm_if_lost X T b move) = Inr (Some d)) =
     (let b1 = push X b move in
        (is_game_over X b1 \<and> is_checkmate X b1 \<and> d = 0) \<or>
        (\<not> is_game_over X b1 \<and>
         halfmove_clock b1 - 100 \<le> probe_dtz T b1 \<and> probe_dtz T b1 < 0 \<and>
         probe_dtm T b1 < 0 \<and> d = probe_dtm T b1))
   \<and> (fst (child_dtm_if_lost X T b move) = Inr None) =
     (let b1 = push X b move in
        (is_game_over X b1 \<and> \<not> is_checkmate X b1) \<or>
        (\<not> is_game_over X b1 \<and>
         \<not> (halfmove_clock b1 - 100 \<le> probe_dtz T b1 \<and> probe_dtz T b1 < 0)))
   \<and> (fst (child_dtm_if_lost X T b move) = Inl e) =
     (let b1 = push X b move in
        e = AssertionError \<and> \<not> is_game_over X b1 \<and>
        halfmove_clock b1 - 100 \<le> probe_dtz T b1 \<and> probe_dtz T b1 < 0 \<and>
        0 \<le> probe_dtm T b1)"
  by (cases e) (auto simp add: child_dtm_if_lost_def Let_def)

text \<open>
  The claim as written fails twice, on a position that the sampling loop yields: place
  5 with win distance 90 and the clock drawn as 7. A quiet reply to a position of win
  distance \<open>-93\<close> meets the stated bound \<open>7 - 100 \<le> -93 < 0\<close> and has a negative mate
  distance, yet is classified as losing: the code reads the clock after the move, 8. And
  a reply that meets the bound with a mate distance of 1 is not classified as losing:
  the call raises.
\<close>

theorem child_dtm_if_lost_clock_before_move_counterexample:
  "snd (sample_step toy tb_late toy_gen \<lparr>squares = [0, 1, 4], entropy = 7\<rparr>)
     = Some (toy_board 7 5)
   \<and> probe_dtz tb_late (toy_board 7 5) = 90
   \<and> Quiet 2 \<in> set (legal_moves toy (toy_board 7 5))
   \<and> \<not> is_game_over toy (push toy (toy_board 7 5) (Quiet 2))
   \<and> halfmove_clock (toy_board 7 5) - 100
       \<le> probe_dtz tb_late (push toy (toy_board 7 5) (Quiet 2))
   \<and> probe_dtz tb_late (push toy (toy_board 7 5) (Quiet 2)) < 0
   \<and> probe_dtm tb_late (push toy (toy_board 7 5) (Quiet 2)) < 0
   \<and> halfmove_clock (push toy (toy_board 7 5) (Quiet 2)) = 8
   \<and> fst (child_dtm_if_lost toy tb_late (toy_board 7 5) (Quiet 2)) = Inr None
   \<and> snd (sample_step toy tb_clash toy_gen \<lparr>squares = [0, 1, 4], entropy = 7\<rparr>)
     = Some (toy_board 7 5)
   \<and> probe_dtz tb_clash (toy_board 7 5) = 90
   \<and> fst (child_dtm_if_lost toy tb_clash (toy_board 7 5) (Quiet 2)) = Inl AssertionError"
proof -
  have 1: "snd (sample_step toy tb_late toy_gen \<lparr>squares = [0, 1, 4], entropy = 7\<rparr>)
     = Some (toy_board 7 5)"
    by (simp add: sampled_eval tb_late_def)
  have 2: "snd (sample_step toy tb_clash toy_gen \<lparr>squares = [0, 1, 4], entropy = 7\<rparr>)
     = Some (toy_board 7 5)"
    by (simp add: sampled_eval tb_clash_def)
  have 3: "probe_dtz tb_late (toy_board 7 5) = 90
   \<and> Quiet 2 \<in> set (legal_moves toy (toy_board 7 5))
   \<and> \<not> is_game_over toy (push toy (toy_board 7 5) (Quiet 2))
   \<and> halfmove_clock (toy_board 7 5) - 100
       \<le> probe_dtz tb_late (push toy (toy_board 7 5) (Quiet 2))
   \<and> probe_dtz tb_late (push toy (toy_board 7 5) (Quiet 2)) < 0
   \<and> probe_dtm tb_late (push toy (toy_board 7 5) (Quiet 2)) < 0
   \<and> halfmove_clock (push toy (toy_board 7 5) (Quiet 2)) = 8
   \<and> fst (child_dtm_if_lost toy tb_late (toy_board 7 5) (Quiet 2)) = Inr None"
    by (simp add: child_dtm_if_lost_def toy_def toy_board_def toy_tb_def tb_late_def)
  have 4: "probe_dtz tb_clash (toy_board 7 5) = 90
   \<and> fst (child_dtm_if_lost toy tb_clash (toy_board 7 5) (Quiet 2)) = Inl AssertionError"
    by (simp add: child_dtm_if_lost_def toy_def toy_board_def toy_tb_def tb_clash_def)
  show ?thesis using 1 2 3 4 by blast
qed

subsection \<open>The lower bound of the budget test\<close>

text \<open>
  C3, as the code has it. The test \<open>board.halfmove_clock - 100 <= dtz\<close> is not strict:
  a reply that does not end the game, whose win distance equals the clock after the move
  minus 100 and is negative, is classified as winning when the mate distance is
  negative. Measured against the clock before the move, a reply that does not checkmate
  and whose win distance equals that clock minus 100 is classified as losing whenever
  the move advanced the clock.
\<close>

theorem budget_test_lower_bound:
  "(\<not> is_game_over X (push X b move)
      \<and> probe_dtz T (push X b move) = halfmove_clock (push X b move) - 100
      \<and> probe_dtz T (push X b move) < 0 \<and> probe_dtm T (push X b move) < 0
    \<longrightarrow> fst (child_dtm_if_lost X T b move) = Inr (Some (probe_dtm T (push X b move))))
   \<and> (\<not> (is_game_over X (push X b move) \<and> is_checkmate X (push X b move))
      \<and> halfmove_clock b < halfmove_clock (push X b move)
      \<and> probe_dtz T (push X b move) = halfmove_clock b - 100
    \<longrightarrow> fst (child_dtm_if_lost X T b move) = Inr None)"
  by (auto simp add: child_dtm_if_lost_def Let_def)

theorem budget_test_lower_bound_witness:
  "\<not> is_game_over toy (push toy (toy_board 40 5) (Quiet 2))
   \<and> probe_dtz (toy_tb (\<lambda>n. if n = 5 then 60 else - 59) (\<lambda>n. if n = 5 then 61 else - 7)) (push toy (toy_board 40 5) (Quiet 2))
       = halfmove_clock (push toy (toy_board 40 5) (Quiet 2)) - 100
   \<and> fst (child_dtm_if_lost toy (toy_tb (\<lambda>n. if n = 5 then 60 else - 59) (\<lambda>n. if n = 5 then 61 else - 7)) (toy_board 40 5) (Quiet 2))
       = Inr (Some (- 7))
   \<and> halfmove_clock (toy_board 40 5) < halfmove_clock (push toy (toy_board 40 5) (Quiet 2))
   \<and> probe_dtz (toy_tb (\<lambda>n. if n = 5 then 60 else - 60) (\<lambda>n. if n = 5 then 61 else - 7)) (push toy (toy_board 40 5) (Quiet 2))
       = halfmove_clock (toy_board 40 5) - 100
   \<and> fst (child_dtm_if_lost toy (toy_tb (\<lambda>n. if n = 5 then 60 else - 60) (\<lambda>n. if n = 5 then 61 else - 7)) (toy_board 40 5) (Quiet 2))
       = Inr None"
proof -
  have p: "push toy \<lparr>halfmove_clock = 40, position = Toy 5 []\<rparr> (Quiet 2)
      = \<lparr>halfmove_clock = 41, position = Toy 2 [(40, 5)]\<rparr>"
    by (simp add: toy_def)
  have g: "\<not> is_game_over toy \<lparr>halfmove_clock = 41, position = Toy 2 [(40, 5)]\<rparr>"
    "\<not> is_checkmate toy \<lparr>halfmove_clock = 41, position = Toy 2 [(40, 5)]\<rparr>"
    by (simp_all add: toy_def)
  have a: "fst (child_dtm_if_lost toy (toy_tb (\<lambda>n. if n = 5 then 60 else - 59) (\<lambda>n. if n = 5 then 61 else - 7)) (toy_board 40 5) (Quiet 2))
      = Inr (Some (- 7))"
    using budget_test_lower_bound
      [of toy "toy_board 40 5" "Quiet 2" "toy_tb (\<lambda>n. if n = 5 then 60 else - 59) (\<lambda>n. if n = 5 then 61 else - 7)"] g
    by (simp add: toy_board_def p toy_tb_def)
  have l: "fst (child_dtm_if_lost toy (toy_tb (\<lambda>n. if n = 5 then 60 else - 60) (\<lambda>n. if n = 5 then 61 else - 7)) (toy_board 40 5) (Quiet 2))
      = Inr None"
    using budget_test_lower_bound
      [of toy "toy_board 40 5" "Quiet 2" "toy_tb (\<lambda>n. if n = 5 then 60 else - 60) (\<lambda>n. if n = 5 then 61 else - 7)"] g
    by (simp add: toy_board_def p toy_tb_def)
  show ?thesis using a l g by (simp add: toy_board_def p toy_tb_def)
qed

text \<open>
  The claim as written fails where the clock does not advance, on a position that the
  sampling loop yields (place 5 with win distance 1 and the clock drawn as 0): a capture
  or pawn move played with the clock at 0 leaves it at 0, and a resulting win distance of
  exactly \<open>0 - 100\<close> passes the test, so the reply is classified as winning.
\<close>

theorem budget_test_strict_counterexample:
  "snd (sample_step toy tb_edge toy_gen \<lparr>squares = [0, 1, 4], entropy = 0\<rparr>)
     = Some (toy_board 0 5)
   \<and> probe_dtz tb_edge (toy_board 0 5) = 1
   \<and> Zeroing 3 \<in> set (legal_moves toy (toy_board 0 5))
   \<and> halfmove_clock (toy_board 0 5) = 0
   \<and> halfmove_clock (push toy (toy_board 0 5) (Zeroing 3)) = 0
   \<and> \<not> is_game_over toy (push toy (toy_board 0 5) (Zeroing 3))
   \<and> probe_dtz tb_edge (push toy (toy_board 0 5) (Zeroing 3))
       = halfmove_clock (toy_board 0 5) - 100
   \<and> fst (child_dtm_if_lost toy tb_edge (toy_board 0 5) (Zeroing 3)) = Inr (Some (- 7))"
proof -
  have 1: "snd (sample_step toy tb_edge toy_gen \<lparr>squares = [0, 1, 4], entropy = 0\<rparr>)
     = Some (toy_board 0 5)"
    by (simp add: sampled_eval tb_edge_def)
  have 2: "probe_dtz tb_edge (toy_board 0 5) = 1
   \<and> Zeroing 3 \<in> set (legal_moves toy (toy_board 0 5))
   \<and> halfmove_clock (toy_board 0 5) = 0
   \<and> halfmove_clock (push toy (toy_board 0 5) (Zeroing 3)) = 0
   \<and> \<not> is_game_over toy (push toy (toy_board 0 5) (Zeroing 3))
   \<and> probe_dtz tb_edge (push toy (toy_board 0 5) (Zeroing 3))
       = halfmove_clock (toy_board 0 5) - 100
   \<and> fst (child_dtm_if_lost toy tb_edge (toy_board 0 5) (Zeroing 3)) = Inr (Some (- 7))"
    by (simp add: child_dtm_if_lost_def toy_def toy_board_def toy_tb_def tb_edge_def)
  show ?thesis using 1 2 by blast
qed

subsection \<open>The annotation of a position\<close>

lemma fold_update_keys:
  "fst ` set (fold (\<lambda>m. AList.update m (f m)) ms acc) = fst ` set acc \<union> set ms"
  by (induction ms arbitrary: acc) (auto simp add: AList.dom_update)

lemma fold_update_distinct:
  "distinct (map fst acc) \<Longrightarrow> distinct (map fst (fold (\<lambda>m. AList.update m (f m)) ms acc))"
  by (induction ms arbitrary: acc) (auto simp add: AList.distinct_update)

lemma fold_update_map_of:
  "map_of (fold (\<lambda>m. AList.update m (f m)) ms acc) k
     = (if k \<in> set ms then Some (f k) else map_of acc k)"
  by (induction ms arbitrary: acc) (auto simp add: AList.update_conv')

lemma fold_update_set:
  "set (fold (\<lambda>m. AList.update m (f m)) ms []) = (\<lambda>m. (m, f m)) ` set ms"
proof -
  let ?ch = "fold (\<lambda>m. AList.update m (f m)) ms []"
  have d: "distinct (map fst ?ch)" by (rule fold_update_distinct) simp
  have "(k, v) \<in> set ?ch \<longleftrightarrow> (k, v) \<in> (\<lambda>m. (m, f m)) ` set ms" for k v
  proof -
    have "(k, v) \<in> set ?ch \<longleftrightarrow> map_of ?ch k = Some v"
      using d by simp
    also have "\<dots> \<longleftrightarrow> (k \<in> set ms \<and> v = f k)"
      by (auto simp add: fold_update_map_of)
    finally show ?thesis by auto
  qed
  then show ?thesis by auto
qed

lemma children_dtm_board:
  assumes "\<forall>m\<in>set ms. pop X (push X b m) = b"
  shows "snd (children_dtm X T b ms acc) = b"
  using assms
proof (induction ms arbitrary: acc)
  case Nil
  then show ?case by simp
next
  case (Cons m ms)
  have "snd (child_dtm_if_lost X T b m) = b"
    using Cons.prems by (simp add: child_board)
  then obtain r where r: "child_dtm_if_lost X T b m = (r, b)"
    by (cases "child_dtm_if_lost X T b m") simp
  show ?case
    using Cons r by (cases r) simp_all
qed

lemma child_error: "fst (child_dtm_if_lost X T b m) = Inl e \<Longrightarrow> e = AssertionError"
  by (auto simp add: child_dtm_if_lost_def Let_def split: if_splits)

lemma children_dtm_result:
  assumes "\<forall>m\<in>set ms. pop X (push X b m) = b"
  shows "fst (children_dtm X T b ms acc) =
     (if \<exists>m\<in>set ms. fst (child_dtm_if_lost X T b m) = Inl AssertionError
      then Inl AssertionError
      else Inr (fold (\<lambda>m. AList.update m (projr (fst (child_dtm_if_lost X T b m)))) ms acc))"
  using assms
proof (induction ms arbitrary: acc)
  case Nil
  then show ?case by simp
next
  case (Cons m ms)
  have "snd (child_dtm_if_lost X T b m) = b"
    using Cons.prems by (simp add: child_board)
  then obtain r where r: "child_dtm_if_lost X T b m = (r, b)"
    by (cases "child_dtm_if_lost X T b m") simp
  show ?case
  proof (cases r)
    case (Inl e)
    then have "e = AssertionError" using r child_error [of X T b m e] by simp
    then show ?thesis using r Inl by simp
  next
    case (Inr d)
    then show ?thesis using r Cons by simp
  qed
qed


lemma set_map_filter_eq:
  "set (List.map_filter f xs) = {y. \<exists>x\<in>set xs. f x = Some y}"
  by (induction xs) (auto split: option.splits)

lemma children_dtm_ok:
  assumes R: "\<forall>m\<in>set ms. pop X (push X b m) = b"
    and N: "\<forall>m\<in>set ms. fst (child_dtm_if_lost X T b m) \<noteq> Inl AssertionError"
  shows "\<exists>ch. children_dtm X T b ms [] = (Inr ch, b)
      \<and> set ch = (\<lambda>m. (m, projr (fst (child_dtm_if_lost X T b m)))) ` set ms
      \<and> (\<forall>m\<in>set ms. fst (child_dtm_if_lost X T b m)
            = Inr (projr (fst (child_dtm_if_lost X T b m))))
      \<and> set (List.map_filter snd ch)
          = {d. \<exists>m\<in>set ms. fst (child_dtm_if_lost X T b m) = Inr (Some d)}"
proof -
  let ?c = "\<lambda>m. fst (child_dtm_if_lost X T b m)"
  let ?ch = "fold (\<lambda>m. AList.update m (projr (?c m))) ms []"
  have 1: "children_dtm X T b ms [] = (Inr ?ch, b)"
    using children_dtm_result [OF R, of T "[]"] children_dtm_board [OF R, of T "[]"] N
    by (simp add: prod_eq_iff)
  have 2: "set ?ch = (\<lambda>m. (m, projr (?c m))) ` set ms"
    by (rule fold_update_set)
  have 3: "?c m = Inr (projr (?c m))" if "m \<in> set ms" for m
  proof (cases "?c m")
    case (Inl e)
    then show ?thesis using child_error [of X T b m e] N that by simp
  next
    case (Inr v)
    then show ?thesis by simp
  qed
  have 4: "set (List.map_filter snd ?ch) = {d. \<exists>m\<in>set ms. ?c m = Inr (Some d)}"
  proof -
    have "set (List.map_filter snd ?ch) = {d. \<exists>m\<in>set ms. projr (?c m) = Some d}"
      by (auto simp add: set_map_filter_eq 2)
    also have "\<dots> = {d. \<exists>m\<in>set ms. ?c m = Inr (Some d)}"
      using 3 by (metis (no_types, lifting) sum.sel(2))
    finally show ?thesis .
  qed
  show ?thesis using 1 2 3 4 by blast
qed


lemma finite_winning_dtms: "finite (winning_dtms X T b)"
proof -
  have "winning_dtms X T b
      \<subseteq> (\<lambda>m. the (projr (reply_class X T b m))) ` set (legal_moves X b)"
    by (force simp add: winning_dtms_def)
  then show ?thesis by (rule finite_subset) simp
qed

lemma annotate_board_format_error:
  assumes "str_format X (id_format g) (code g) (fcard (unique_boards g)) = Inl e"
  shows "annotate_board X T g b = (Inl e, b)"
  using assms by (simp add: annotate_board_def)

lemma annotate_board_child_assert:
  assumes R: "\<forall>m\<in>set (legal_moves X b). pop X (push X b m) = b"
    and F: "str_format X (id_format g) (code g) (fcard (unique_boards g)) = Inr ident"
    and E: "\<exists>m\<in>set (legal_moves X b). reply_class X T b m = Inl AssertionError"
  shows "annotate_board X T g b = (Inl AssertionError, b)"
proof -
  have "children_dtm X T b (legal_moves X b) [] = (Inl AssertionError, b)"
    using children_dtm_result [OF R, of T "[]"] children_dtm_board [OF R, of T "[]"] E
    by (simp add: prod_eq_iff reply_class_def)
  then show ?thesis by (simp add: annotate_board_def F)
qed

lemma annotate_board_no_child_assert:
  assumes R: "\<forall>m\<in>set (legal_moves X b). pop X (push X b m) = b"
    and F: "str_format X (id_format g) (code g) (fcard (unique_boards g)) = Inr ident"
    and N: "\<forall>m\<in>set (legal_moves X b). reply_class X T b m \<noteq> Inl AssertionError"
  shows "\<exists>ch. set ch = (\<lambda>m. (m, projr (reply_class X T b m))) ` set (legal_moves X b)
     \<and> (\<forall>m\<in>set (legal_moves X b). reply_class X T b m = Inr (projr (reply_class X T b m)))
     \<and> annotate_board X T g b =
       (if winning_dtms X T b = {} then (Inl ValueError, b)
        else if \<not> (0 < probe_dtm T b \<and> probe_dtm T b \<le> 1 - Max (winning_dtms X T b))
        then (Inl AssertionError, b)
        else (Inr \<lparr>epd_id = ident,
                   hmvc = (if halfmove_clock b \<noteq> 0 then Some (halfmove_clock b) else None),
                   bm = [move. (move, dtm) \<leftarrow> ch, dtm = Some (Max (winning_dtms X T b))],
                   am = (if [move. (move, dtm) \<leftarrow> ch, dtm = None] \<noteq> []
                         then Some [move. (move, dtm) \<leftarrow> ch, dtm = None] else None),
                   dm = int_of_half (probe_dtm T b + 1),
                   R50 = (if probe_dtm T b < 1 - Max (winning_dtms X T b)
                          then Some () else None)\<rparr>, b))"
proof -
  from children_dtm_ok [OF R, of T] N
  obtain ch where
    1: "children_dtm X T b (legal_moves X b) [] = (Inr ch, b)" and
    2: "set ch = (\<lambda>m. (m, projr (reply_class X T b m))) ` set (legal_moves X b)" and
    3: "\<forall>m\<in>set (legal_moves X b). reply_class X T b m = Inr (projr (reply_class X T b m))" and
    4: "set (List.map_filter snd ch) = winning_dtms X T b"
    unfolding reply_class_def winning_dtms_def by blast
  have 5: "annotate_board X T g b =
       (if winning_dtms X T b = {} then (Inl ValueError, b)
        else if \<not> (0 < probe_dtm T b \<and> probe_dtm T b \<le> 1 - Max (winning_dtms X T b))
        then (Inl AssertionError, b)
        else (Inr \<lparr>epd_id = ident,
                   hmvc = (if halfmove_clock b \<noteq> 0 then Some (halfmove_clock b) else None),
                   bm = [move. (move, dtm) \<leftarrow> ch, dtm = Some (Max (winning_dtms X T b))],
                   am = (if [move. (move, dtm) \<leftarrow> ch, dtm = None] \<noteq> []
                         then Some [move. (move, dtm) \<leftarrow> ch, dtm = None] else None),
                   dm = int_of_half (probe_dtm T b + 1),
                   R50 = (if probe_dtm T b < 1 - Max (winning_dtms X T b)
                          then Some () else None)\<rparr>, b))"
  proof (cases "List.map_filter snd ch")
    case Nil
    then have "winning_dtms X T b = {}" using 4 by simp
    then show ?thesis using 1 Nil by (simp add: annotate_board_def F)
  next
    case (Cons d ds)
    then have w: "winning_dtms X T b = set (d # ds)" using 4 by simp
    have m: "fold max ds d = Max (winning_dtms X T b)"
      unfolding w by (simp only: Max.set_eq_fold)
    have ne: "winning_dtms X T b \<noteq> {}" using w by simp
    show ?thesis
      using 1 Cons ne by (simp add: annotate_board_def F Let_def m)
  qed
  show ?thesis using 2 3 5 by blast
qed


lemma reply_class_assert:
  "(reply_class X T b move = Inl AssertionError) =
     (\<not> is_game_over X (push X b move)
      \<and> halfmove_clock (push X b move) - 100 \<le> probe_dtz T (push X b move)
      \<and> probe_dtz T (push X b move) < 0
      \<and> 0 \<le> probe_dtm T (push X b move))"
  by (auto simp add: reply_class_def child_dtm_if_lost_def Let_def)

lemma annotate_board_Inr:
  assumes R: "\<forall>m\<in>set (legal_moves X b). pop X (push X b m) = b"
    and A: "annotate_board X T g b = (Inr info, b')"
  shows "winning_dtms X T b \<noteq> {}
    \<and> 0 < probe_dtm T b \<and> probe_dtm T b \<le> 1 - Max (winning_dtms X T b)
    \<and> set (bm info) = {m \<in> set (legal_moves X b).
          reply_class X T b m = Inr (Some (Max (winning_dtms X T b)))}
    \<and> dm info = int_of_half (probe_dtm T b + 1)
    \<and> R50 info = (if probe_dtm T b < 1 - Max (winning_dtms X T b) then Some () else None)
    \<and> b' = b"
proof -
  obtain ident where F: "str_format X (id_format g) (code g) (fcard (unique_boards g)) = Inr ident"
  proof (cases "str_format X (id_format g) (code g) (fcard (unique_boards g))")
    case (Inl e)
    then have "annotate_board X T g b = (Inl e, b)" by (rule annotate_board_format_error)
    then show ?thesis using A by simp
  next
    case (Inr ident)
    then show ?thesis by (rule that)
  qed
  have N: "\<forall>m\<in>set (legal_moves X b). reply_class X T b m \<noteq> Inl AssertionError"
  proof (rule ccontr)
    assume "\<not> ?thesis"
    then have "annotate_board X T g b = (Inl AssertionError, b)"
      using annotate_board_child_assert [OF R F, of T] by blast
    then show False using A by simp
  qed
  from annotate_board_no_child_assert [OF R F N]
  obtain ch where
    2: "set ch = (\<lambda>m. (m, projr (reply_class X T b m))) ` set (legal_moves X b)" and
    3: "\<forall>m\<in>set (legal_moves X b). reply_class X T b m = Inr (projr (reply_class X T b m))" and
    5: "annotate_board X T g b =
       (if winning_dtms X T b = {} then (Inl ValueError, b)
        else if \<not> (0 < probe_dtm T b \<and> probe_dtm T b \<le> 1 - Max (winning_dtms X T b))
        then (Inl AssertionError, b)
        else (Inr \<lparr>epd_id = ident,
                   hmvc = (if halfmove_clock b \<noteq> 0 then Some (halfmove_clock b) else None),
                   bm = [move. (move, dtm) \<leftarrow> ch, dtm = Some (Max (winning_dtms X T b))],
                   am = (if [move. (move, dtm) \<leftarrow> ch, dtm = None] \<noteq> []
                         then Some [move. (move, dtm) \<leftarrow> ch, dtm = None] else None),
                   dm = int_of_half (probe_dtm T b + 1),
                   R50 = (if probe_dtm T b < 1 - Max (winning_dtms X T b)
                          then Some () else None)\<rparr>, b))"
    by blast
  have ne: "winning_dtms X T b \<noteq> {}" using 5 A by (auto split: if_splits)
  have ok: "0 < probe_dtm T b \<and> probe_dtm T b \<le> 1 - Max (winning_dtms X T b)"
    using 5 A ne by (auto split: if_splits)
  have info: "info = \<lparr>epd_id = ident,
                   hmvc = (if halfmove_clock b \<noteq> 0 then Some (halfmove_clock b) else None),
                   bm = [move. (move, dtm) \<leftarrow> ch, dtm = Some (Max (winning_dtms X T b))],
                   am = (if [move. (move, dtm) \<leftarrow> ch, dtm = None] \<noteq> []
                         then Some [move. (move, dtm) \<leftarrow> ch, dtm = None] else None),
                   dm = int_of_half (probe_dtm T b + 1),
                   R50 = (if probe_dtm T b < 1 - Max (winning_dtms X T b)
                          then Some () else None)\<rparr>" and b': "b' = b"
    using 5 A ne ok by (simp_all split: if_splits)
  have "set (bm info) = {m. (m, Some (Max (winning_dtms X T b))) \<in> set ch}"
    by (auto simp add: info)
  also have "\<dots> = {m \<in> set (legal_moves X b).
          reply_class X T b m = Inr (Some (Max (winning_dtms X T b)))}"
    using 3 by (auto simp add: 2)
  finally have bm: "set (bm info) = {m \<in> set (legal_moves X b).
          reply_class X T b m = Inr (Some (Max (winning_dtms X T b)))}" .
  show ?thesis using ne ok bm b' by (simp add: info)
qed

lemma Max_winning_dtms:
  assumes that: "m \<in> set (legal_moves X b)"
  shows "(reply_class X T b m = Inr (Some (Max (winning_dtms X T b))))
     = (\<exists>d. reply_class X T b m = Inr (Some d)
          \<and> (\<forall>m'\<in>set (legal_moves X b). \<forall>d'. reply_class X T b m' = Inr (Some d') \<longrightarrow> d' \<le> d))"
    (is "?l = ?r")
proof
  assume l: ?l
  have "d' \<le> Max (winning_dtms X T b)"
    if "m' \<in> set (legal_moves X b)" "reply_class X T b m' = Inr (Some d')" for m' d'
  proof -
    have "d' \<in> winning_dtms X T b" using that by (auto simp add: winning_dtms_def)
    then show ?thesis by (rule Max_ge [OF finite_winning_dtms])
  qed
  then show ?r using l by blast
next
  assume ?r
  then obtain d where d: "reply_class X T b m = Inr (Some d)"
    and u: "\<forall>m'\<in>set (legal_moves X b). \<forall>d'. reply_class X T b m' = Inr (Some d') \<longrightarrow> d' \<le> d"
    by blast
  have "d \<in> winning_dtms X T b" using d that by (auto simp add: winning_dtms_def)
  moreover have "\<forall>x\<in>winning_dtms X T b. x \<le> d" using u by (auto simp add: winning_dtms_def)
  ultimately have "Max (winning_dtms X T b) = d"
    using finite_winning_dtms [of X T b] by (intro Max_eqI) auto
  then show ?l using d by simp
qed

lemmas toy_eval = annotate_board_def child_dtm_if_lost_def toy_def toy_board_def toy_tb_def
  toy_gen_def int_of_half_def fcard_finsert_if

lemma toy_restores:
  "\<forall>m\<in>set (legal_moves toy (toy_board c 5)). pop toy (push toy (toy_board c 5) m) = toy_board c 5"
  by (simp add: toy_def toy_board_def)

text \<open>
  C4, as the code has it. The annotation first formats the identifier; when
  \<open>str.format\<close> raises (a \<open>KeyError\<close>, \<open>IndexError\<close> or \<open>ValueError\<close> of a format
  string that does not fit), the annotation raises that exception and no record is
  returned. When the identifier is formatted, on a position whose replies the rules
  engine undoes, the annotation ends in one of three ways. It raises the assertion error
  exactly when some legal reply meets the bound on the win distance and has a mate
  distance that is not negative, or when there are winning replies and the mate distance
  \<open>p\<close> of the position itself fails \<open>0 < p \<le> 1 - best\<close>, \<open>best\<close> being the greatest
  mate distance of a winning reply. It raises \<open>ValueError\<close>, which is no assertion,
  exactly when no reply raises and no reply is winning. It returns a record exactly when
  no reply raises, some reply is winning and \<open>0 < p \<le> 1 - best\<close>.
\<close>

theorem annotate_board_outcomes:
  assumes R: "\<forall>m\<in>set (legal_moves X b). pop X (push X b m) = b"
  shows "(\<forall>e. str_format X (id_format g) (code g) (fcard (unique_boards g)) = Inl e
            \<longrightarrow> fst (annotate_board X T g b) = Inl e)
    \<and> ((\<exists>info. fst (annotate_board X T g b) = Inr info)
         \<longrightarrow> (\<exists>ident. str_format X (id_format g) (code g) (fcard (unique_boards g))
                        = Inr ident))
    \<and> (\<forall>ident. str_format X (id_format g) (code g) (fcard (unique_boards g)) = Inr ident
          \<longrightarrow>
          ((fst (annotate_board X T g b) = Inl AssertionError) =
             ((\<exists>m\<in>set (legal_moves X b).
                  \<not> is_game_over X (push X b m)
                  \<and> halfmove_clock (push X b m) - 100 \<le> probe_dtz T (push X b m)
                  \<and> probe_dtz T (push X b m) < 0
                  \<and> 0 \<le> probe_dtm T (push X b m))
              \<or> (winning_dtms X T b \<noteq> {}
                  \<and> \<not> (0 < probe_dtm T b
                        \<and> probe_dtm T b \<le> 1 - Max (winning_dtms X T b)))))
          \<and> ((fst (annotate_board X T g b) = Inl ValueError) =
             ((\<forall>m\<in>set (legal_moves X b). reply_class X T b m \<noteq> Inl AssertionError)
              \<and> winning_dtms X T b = {}))
          \<and> ((\<exists>info. fst (annotate_board X T g b) = Inr info) =
             ((\<forall>m\<in>set (legal_moves X b). reply_class X T b m \<noteq> Inl AssertionError)
              \<and> winning_dtms X T b \<noteq> {}
              \<and> 0 < probe_dtm T b \<and> probe_dtm T b \<le> 1 - Max (winning_dtms X T b)))
          \<and> fst (annotate_board X T g b) \<noteq> Inl KeyError
          \<and> fst (annotate_board X T g b) \<noteq> Inl IndexError)"
proof -
  have 1: "\<forall>e. str_format X (id_format g) (code g) (fcard (unique_boards g)) = Inl e
            \<longrightarrow> fst (annotate_board X T g b) = Inl e"
    by (simp add: annotate_board_format_error)
  have 2: "(\<exists>info. fst (annotate_board X T g b) = Inr info)
         \<longrightarrow> (\<exists>ident. str_format X (id_format g) (code g) (fcard (unique_boards g))
                        = Inr ident)"
    by (cases "str_format X (id_format g) (code g) (fcard (unique_boards g))")
      (simp_all add: annotate_board_format_error)
  have 3: "((fst (annotate_board X T g b) = Inl AssertionError) =
             ((\<exists>m\<in>set (legal_moves X b).
                  \<not> is_game_over X (push X b m)
                  \<and> halfmove_clock (push X b m) - 100 \<le> probe_dtz T (push X b m)
                  \<and> probe_dtz T (push X b m) < 0
                  \<and> 0 \<le> probe_dtm T (push X b m))
              \<or> (winning_dtms X T b \<noteq> {}
                  \<and> \<not> (0 < probe_dtm T b
                        \<and> probe_dtm T b \<le> 1 - Max (winning_dtms X T b)))))
          \<and> ((fst (annotate_board X T g b) = Inl ValueError) =
             ((\<forall>m\<in>set (legal_moves X b). reply_class X T b m \<noteq> Inl AssertionError)
              \<and> winning_dtms X T b = {}))
          \<and> ((\<exists>info. fst (annotate_board X T g b) = Inr info) =
             ((\<forall>m\<in>set (legal_moves X b). reply_class X T b m \<noteq> Inl AssertionError)
              \<and> winning_dtms X T b \<noteq> {}
              \<and> 0 < probe_dtm T b \<and> probe_dtm T b \<le> 1 - Max (winning_dtms X T b)))
          \<and> fst (annotate_board X T g b) \<noteq> Inl KeyError
          \<and> fst (annotate_board X T g b) \<noteq> Inl IndexError"
    if F: "str_format X (id_format g) (code g) (fcard (unique_boards g)) = Inr ident"
    for ident
  proof (cases "\<exists>m\<in>set (legal_moves X b). reply_class X T b m = Inl AssertionError")
    case True
    then have "annotate_board X T g b = (Inl AssertionError, b)"
      by (rule annotate_board_child_assert [OF R F])
    then show ?thesis using True by (auto simp add: reply_class_assert)
  next
    case False
    then have N: "\<forall>m\<in>set (legal_moves X b). reply_class X T b m \<noteq> Inl AssertionError"
      by blast
    from annotate_board_no_child_assert [OF R F N]
    have "fst (annotate_board X T g b) = Inl ValueError
        \<or> fst (annotate_board X T g b) = Inl AssertionError
        \<or> (\<exists>info. fst (annotate_board X T g b) = Inr info)"
      and "(fst (annotate_board X T g b) = Inl ValueError) = (winning_dtms X T b = {})"
      and "(fst (annotate_board X T g b) = Inl AssertionError) =
         (winning_dtms X T b \<noteq> {}
          \<and> \<not> (0 < probe_dtm T b \<and> probe_dtm T b \<le> 1 - Max (winning_dtms X T b)))"
      by (auto split: if_splits)
    then show ?thesis using N False by (auto simp add: reply_class_assert)
  qed
  show ?thesis using 1 2 3 by blast
qed

theorem annotate_board_outcomes_witness:
  "list_all (\<lambda>m. pop toy (push toy (toy_board 10 5) m) = toy_board 10 5)
     (legal_moves toy (toy_board 10 5))
   \<and> str_format toy (id_format toy_gen) (code toy_gen) (fcard (unique_boards toy_gen))
       = Inr ''KQki''
   \<and> fst (annotate_board toy tb_fast toy_gen (toy_board 10 5))
       = Inr \<lparr>epd_id = ''KQki'', hmvc = Some 10, bm = [Quiet 2],
              am = Some [Quiet 6, Quiet 4], dm = 1, R50 = None\<rparr>
   \<and> winning_dtms toy tb_fast (toy_board 10 5) \<noteq> {}
   \<and> 0 < probe_dtm tb_fast (toy_board 10 5)
   \<and> probe_dtm tb_fast (toy_board 10 5) \<le> 1 - Max (winning_dtms toy tb_fast (toy_board 10 5))
   \<and> str_format toy (id_format (toy_gen\<lparr>id_format := ''{x}''\<rparr>))
         (code (toy_gen\<lparr>id_format := ''{x}''\<rparr>))
         (fcard (unique_boards (toy_gen\<lparr>id_format := ''{x}''\<rparr>))) = Inl KeyError
   \<and> fst (annotate_board toy tb_fast (toy_gen\<lparr>id_format := ''{x}''\<rparr>) (toy_board 10 5))
       = Inl KeyError"
proof -
  have l: "list_all (\<lambda>m. pop toy (push toy (toy_board 10 5) m) = toy_board 10 5)
     (legal_moves toy (toy_board 10 5))"
    using toy_restores [of 10] by (simp add: list_all_iff)
  have f: "str_format toy (id_format toy_gen) (code toy_gen) (fcard (unique_boards toy_gen))
       = Inr ''KQki''"
    by (simp add: toy_def toy_gen_def fcard_finsert_if)
  have e: "fst (annotate_board toy tb_fast toy_gen (toy_board 10 5))
       = Inr \<lparr>epd_id = ''KQki'', hmvc = Some 10, bm = [Quiet 2],
              am = Some [Quiet 6, Quiet 4], dm = 1, R50 = None\<rparr>"
    by (simp add: toy_eval tb_fast_def)
  note t = annotate_board_outcomes [OF toy_restores, where T = tb_fast]
  from t [where g = toy_gen, of 10]
  have "\<forall>ident. str_format toy (id_format toy_gen) (code toy_gen)
            (fcard (unique_boards toy_gen)) = Inr ident \<longrightarrow>
         (\<exists>info. fst (annotate_board toy tb_fast toy_gen (toy_board 10 5)) = Inr info) =
         ((\<forall>m\<in>set (legal_moves toy (toy_board 10 5)).
              reply_class toy tb_fast (toy_board 10 5) m \<noteq> Inl AssertionError)
          \<and> winning_dtms toy tb_fast (toy_board 10 5) \<noteq> {}
          \<and> 0 < probe_dtm tb_fast (toy_board 10 5)
          \<and> probe_dtm tb_fast (toy_board 10 5)
              \<le> 1 - Max (winning_dtms toy tb_fast (toy_board 10 5)))"
    by blast
  with f e have w: "winning_dtms toy tb_fast (toy_board 10 5) \<noteq> {}
      \<and> 0 < probe_dtm tb_fast (toy_board 10 5)
      \<and> probe_dtm tb_fast (toy_board 10 5)
          \<le> 1 - Max (winning_dtms toy tb_fast (toy_board 10 5))"
    by blast
  have k: "str_format toy (id_format (toy_gen\<lparr>id_format := ''{x}''\<rparr>))
         (code (toy_gen\<lparr>id_format := ''{x}''\<rparr>))
         (fcard (unique_boards (toy_gen\<lparr>id_format := ''{x}''\<rparr>))) = Inl KeyError"
    by (simp add: toy_def toy_gen_def)
  from t [where g = "toy_gen\<lparr>id_format := ''{x}''\<rparr>", of 10] k
  have x: "fst (annotate_board toy tb_fast (toy_gen\<lparr>id_format := ''{x}''\<rparr>) (toy_board 10 5))
       = Inl KeyError"
    by blast
  show ?thesis using l f e w k x by blast
qed

text \<open>
  The claim as written fails on a position without a winning reply, one that the
  sampling loop yields (place 5 with win distance 100 and the clock 0): no assertion is
  violated (each of the four replies is classified as losing, and the assertion on the
  position's own mate distance is never reached), yet no record is returned: \<open>max\<close>
  raises \<open>ValueError\<close>. The quiet replies have win distance \<open>-100\<close>, one more than the
  budget allows after the move. It fails as well when the identifier cannot be
  formatted: no assertion is violated, and the annotation raises \<open>KeyError\<close>.
\<close>

theorem annotate_board_value_error_counterexample:
  "snd (sample_step toy tb_none toy_gen \<lparr>squares = [0, 1, 4], entropy = 0\<rparr>)
     = Some (toy_board 0 5)
   \<and> legal_moves toy (toy_board 0 5) = [Quiet 2, Quiet 6, Zeroing 3, Quiet 4]
   \<and> fst (child_dtm_if_lost toy tb_none (toy_board 0 5) (Quiet 2)) = Inr None
   \<and> fst (child_dtm_if_lost toy tb_none (toy_board 0 5) (Quiet 6)) = Inr None
   \<and> fst (child_dtm_if_lost toy tb_none (toy_board 0 5) (Zeroing 3)) = Inr None
   \<and> fst (child_dtm_if_lost toy tb_none (toy_board 0 5) (Quiet 4)) = Inr None
   \<and> annotate_board toy tb_none toy_gen (toy_board 0 5) = (Inl ValueError, toy_board 0 5)
   \<and> annotate_board toy tb_fast (toy_gen\<lparr>id_format := ''{x}''\<rparr>) (toy_board 10 5)
       = (Inl KeyError, toy_board 10 5)"
proof -
  have 1: "snd (sample_step toy tb_none toy_gen \<lparr>squares = [0, 1, 4], entropy = 0\<rparr>)
     = Some (toy_board 0 5)"
    by (simp add: sampled_eval tb_none_def)
  have 2: "legal_moves toy (toy_board 0 5) = [Quiet 2, Quiet 6, Zeroing 3, Quiet 4]
   \<and> fst (child_dtm_if_lost toy tb_none (toy_board 0 5) (Quiet 2)) = Inr None
   \<and> fst (child_dtm_if_lost toy tb_none (toy_board 0 5) (Quiet 6)) = Inr None
   \<and> fst (child_dtm_if_lost toy tb_none (toy_board 0 5) (Zeroing 3)) = Inr None
   \<and> fst (child_dtm_if_lost toy tb_none (toy_board 0 5) (Quiet 4)) = Inr None
   \<and> annotate_board toy tb_none toy_gen (toy_board 0 5) = (Inl ValueError, toy_board 0 5)"
    by (simp add: toy_eval tb_none_def)
  have 3: "annotate_board toy tb_fast (toy_gen\<lparr>id_format := ''{x}''\<rparr>) (toy_board 10 5)
       = (Inl KeyError, toy_board 10 5)"
    by (simp add: annotate_board_def toy_def toy_gen_def toy_board_def)
  show ?thesis using 1 2 3 by blast
qed

text \<open>
  C5. Whenever the annotation returns a record, its list of optimal moves is not empty,
  and the moves in it are exactly the legal replies that are classified as winning with
  a mate distance that no winning reply exceeds.
\<close>

theorem optimal_moves_are_fastest_winning_replies:
  assumes R: "\<forall>m\<in>set (legal_moves X b). pop X (push X b m) = b"
    and A: "annotate_board X T g b = (Inr info, b')"
  shows "bm info \<noteq> []
    \<and> set (bm info) =
        {m \<in> set (legal_moves X b).
           \<exists>d. fst (child_dtm_if_lost X T b m) = Inr (Some d)
             \<and> (\<forall>m'\<in>set (legal_moves X b). \<forall>d'.
                   fst (child_dtm_if_lost X T b m') = Inr (Some d') \<longrightarrow> d' \<le> d)}"
proof -
  from annotate_board_Inr [OF R A]
  have ne: "winning_dtms X T b \<noteq> {}"
    and bm: "set (bm info) = {m \<in> set (legal_moves X b).
          reply_class X T b m = Inr (Some (Max (winning_dtms X T b)))}"
    by simp_all
  have "Max (winning_dtms X T b) \<in> winning_dtms X T b"
    using ne finite_winning_dtms by (rule Max_in [rotated])
  then have "set (bm info) \<noteq> {}"
    unfolding bm by (auto simp add: winning_dtms_def)
  then have 1: "bm info \<noteq> []" by auto
  have 2: "set (bm info) =
        {m \<in> set (legal_moves X b).
           \<exists>d. reply_class X T b m = Inr (Some d)
             \<and> (\<forall>m'\<in>set (legal_moves X b). \<forall>d'.
                   reply_class X T b m' = Inr (Some d') \<longrightarrow> d' \<le> d)}"
    unfolding bm using Max_winning_dtms [of _ X b T] by blast
  show ?thesis using 1 2 by (simp add: reply_class_def)
qed


theorem optimal_moves_are_fastest_winning_replies_witness:
  "list_all (\<lambda>m. pop toy (push toy (toy_board 10 5) m) = toy_board 10 5)
     (legal_moves toy (toy_board 10 5))
   \<and> annotate_board toy tb_fast toy_gen (toy_board 10 5)
       = (Inr \<lparr>epd_id = ''KQki'', hmvc = Some 10, bm = [Quiet 2],
               am = Some [Quiet 6, Quiet 4], dm = 1, R50 = None\<rparr>, toy_board 10 5)
   \<and> set [Quiet 2] =
        {m \<in> set (legal_moves toy (toy_board 10 5)).
           \<exists>d. fst (child_dtm_if_lost toy tb_fast (toy_board 10 5) m) = Inr (Some d)
             \<and> (\<forall>m'\<in>set (legal_moves toy (toy_board 10 5)). \<forall>d'.
                   fst (child_dtm_if_lost toy tb_fast (toy_board 10 5) m') = Inr (Some d')
                   \<longrightarrow> d' \<le> d)}"
proof -
  have e: "annotate_board toy tb_fast toy_gen (toy_board 10 5)
       = (Inr \<lparr>epd_id = ''KQki'', hmvc = Some 10, bm = [Quiet 2],
               am = Some [Quiet 6, Quiet 4], dm = 1, R50 = None\<rparr>, toy_board 10 5)"
    by (simp add: toy_eval tb_fast_def)
  have r: "list_all (\<lambda>m. pop toy (push toy (toy_board 10 5) m) = toy_board 10 5)
     (legal_moves toy (toy_board 10 5))"
    using toy_restores [of 10] by (simp add: list_all_iff)
  have t: "set [Quiet 2] =
        {m \<in> set (legal_moves toy (toy_board 10 5)).
           \<exists>d. fst (child_dtm_if_lost toy tb_fast (toy_board 10 5) m) = Inr (Some d)
             \<and> (\<forall>m'\<in>set (legal_moves toy (toy_board 10 5)). \<forall>d'.
                   fst (child_dtm_if_lost toy tb_fast (toy_board 10 5) m') = Inr (Some d')
                   \<longrightarrow> d' \<le> d)}"
    using optimal_moves_are_fastest_winning_replies [OF toy_restores e] by simp
  show ?thesis by (rule conjI [OF r conjI [OF e t]])
qed

text \<open>
  C7. Whenever the annotation returns a record, the key \<open>R50\<close> is present in it if and
  only if the mate distance of the position is less than \<open>1 - d\<close>, where \<open>d\<close> is the
  mate distance of the optimal replies: the greatest among the winning replies, and the
  distance of every move in the list of optimal moves.
\<close>

theorem R50_present_iff_parent_shorter:
  assumes R: "\<forall>m\<in>set (legal_moves X b). pop X (push X b m) = b"
    and A: "annotate_board X T g b = (Inr info, b')"
  shows "bm info \<noteq> []
    \<and> (\<forall>m\<in>set (bm info). \<exists>d.
          fst (child_dtm_if_lost X T b m) = Inr (Some d)
          \<and> d = Max (winning_dtms X T b)
          \<and> (R50 info \<noteq> None) = (probe_dtm T b < 1 - d))"
proof -
  from annotate_board_Inr [OF R A]
  have ne: "winning_dtms X T b \<noteq> {}"
    and bm: "set (bm info) = {m \<in> set (legal_moves X b).
          reply_class X T b m = Inr (Some (Max (winning_dtms X T b)))}"
    and f: "R50 info = (if probe_dtm T b < 1 - Max (winning_dtms X T b) then Some () else None)"
    by simp_all
  have "Max (winning_dtms X T b) \<in> winning_dtms X T b"
    using ne finite_winning_dtms by (rule Max_in [rotated])
  then have "set (bm info) \<noteq> {}"
    unfolding bm by (auto simp add: winning_dtms_def)
  then have 1: "bm info \<noteq> []" by auto
  have 2: "(R50 info \<noteq> None) = (probe_dtm T b < 1 - Max (winning_dtms X T b))"
    by (simp add: f)
  show ?thesis using 1 2 bm by (auto simp add: reply_class_def)
qed

theorem R50_present_iff_parent_shorter_witness:
  "list_all (\<lambda>m. pop toy (push toy (toy_board 10 5) m) = toy_board 10 5)
     (legal_moves toy (toy_board 10 5))
   \<and> annotate_board toy tb_r50 toy_gen (toy_board 10 5)
       = (Inr \<lparr>epd_id = ''KQki'', hmvc = Some 10, bm = [Zeroing 3],
               am = Some [Quiet 2, Quiet 6, Quiet 4], dm = 1, R50 = Some ()\<rparr>, toy_board 10 5)
   \<and> fst (child_dtm_if_lost toy tb_r50 (toy_board 10 5) (Zeroing 3)) = Inr (Some (- 5))
   \<and> Max (winning_dtms toy tb_r50 (toy_board 10 5)) = - 5
   \<and> probe_dtm tb_r50 (toy_board 10 5) < 1 - (- 5)"
proof -
  have e: "annotate_board toy tb_r50 toy_gen (toy_board 10 5)
       = (Inr \<lparr>epd_id = ''KQki'', hmvc = Some 10, bm = [Zeroing 3],
               am = Some [Quiet 2, Quiet 6, Quiet 4], dm = 1, R50 = Some ()\<rparr>, toy_board 10 5)"
    by (simp add: toy_eval tb_r50_def)
  have r: "list_all (\<lambda>m. pop toy (push toy (toy_board 10 5) m) = toy_board 10 5)
     (legal_moves toy (toy_board 10 5))"
    using toy_restores [of 10] by (simp add: list_all_iff)
  have c: "fst (child_dtm_if_lost toy tb_r50 (toy_board 10 5) (Zeroing 3)) = Inr (Some (- 5))"
    by (simp add: toy_eval tb_r50_def)
  have t: "Max (winning_dtms toy tb_r50 (toy_board 10 5)) = - 5
      \<and> probe_dtm tb_r50 (toy_board 10 5) < 1 - (- 5)"
    using R50_present_iff_parent_shorter [OF toy_restores e] c by simp
  show ?thesis using r e c t by simp
qed

lemma half_rounded_up: "0 < p \<Longrightarrow> int_of_half (p + 1) = (p + 1) div 2
  \<and> int_of_half (p + 1) = \<lceil>real_of_int p / 2\<rceil>"
proof -
  assume p: "0 < p"
  have 1: "int_of_half (p + 1) = (p + 1) div 2" using p by (simp add: int_of_half_def)
  have "\<lceil>real_of_int p / 2\<rceil> = - (- p div 2)"
    using ceiling_divide_eq_div [of p 2, where ?'a = real] by simp
  also have "\<dots> = (p + 1) div 2" by presburger
  finally show ?thesis using 1 by simp
qed

text \<open>
  C6. Whenever the annotation returns a record, the mate distance \<open>p\<close> of the position
  is positive and the field \<open>dm\<close> is \<open>p / 2\<close> rounded toward positive infinity, the
  ceiling of \<open>p / 2\<close>: the code adds 1 and halves, and \<open>int\<close> cuts the half off, which
  is the integer quotient \<open>(p + 1) div 2\<close>. The bound on \<open>p\<close> is the range in which the
  float division of the code is exact.
\<close>

theorem dm_is_half_of_parent_dtm_rounded_up:
  assumes R: "\<forall>m\<in>set (legal_moves X b). pop X (push X b m) = b"
    and A: "annotate_board X T g b = (Inr info, b')"
    and F: "probe_dtm T b + 1 < 2 ^ 53"
  shows "0 < probe_dtm T b
    \<and> dm info = (probe_dtm T b + 1) div 2
    \<and> dm info = \<lceil>real_of_int (probe_dtm T b) / 2\<rceil>"
proof -
  from annotate_board_Inr [OF R A]
  have p: "0 < probe_dtm T b" and d: "dm info = int_of_half (probe_dtm T b + 1)"
    by simp_all
  show ?thesis using p d half_rounded_up [OF p] by simp
qed

theorem dm_is_half_of_parent_dtm_rounded_up_witness:
  "list_all (\<lambda>m. pop toy (push toy (toy_board 10 5) m) = toy_board 10 5)
     (legal_moves toy (toy_board 10 5))
   \<and> annotate_board toy tb_fast toy_gen (toy_board 10 5)
       = (Inr \<lparr>epd_id = ''KQki'', hmvc = Some 10, bm = [Quiet 2],
               am = Some [Quiet 6, Quiet 4], dm = 1, R50 = None\<rparr>, toy_board 10 5)
   \<and> probe_dtm tb_fast (toy_board 10 5) + 1 < 2 ^ 53
   \<and> probe_dtm tb_fast (toy_board 10 5) = 2
   \<and> (1::int) = \<lceil>real_of_int (probe_dtm tb_fast (toy_board 10 5)) / 2\<rceil>"
proof -
  have e: "annotate_board toy tb_fast toy_gen (toy_board 10 5)
       = (Inr \<lparr>epd_id = ''KQki'', hmvc = Some 10, bm = [Quiet 2],
               am = Some [Quiet 6, Quiet 4], dm = 1, R50 = None\<rparr>, toy_board 10 5)"
    by (simp add: toy_eval tb_fast_def)
  have r: "list_all (\<lambda>m. pop toy (push toy (toy_board 10 5) m) = toy_board 10 5)
     (legal_moves toy (toy_board 10 5))"
    using toy_restores [of 10] by (simp add: list_all_iff)
  have p: "probe_dtm tb_fast (toy_board 10 5) = 2"
    by (simp add: tb_fast_def toy_tb_def toy_board_def)
  have f: "probe_dtm tb_fast (toy_board 10 5) + 1 < 2 ^ 53"
    by (simp add: p)
  have t: "(1::int) = \<lceil>real_of_int (probe_dtm tb_fast (toy_board 10 5)) / 2\<rceil>"
    using dm_is_half_of_parent_dtm_rounded_up [OF toy_restores e f] by simp
  show ?thesis by (rule conjI [OF r conjI [OF e conjI [OF f conjI [OF p t]]]])
qed

subsection \<open>The board after the annotation\<close>

lemma annotate_board_board:
  assumes R: "\<forall>m\<in>set (legal_moves X b). pop X (push X b m) = b"
  shows "snd (annotate_board X T g b) = b"
proof (cases "str_format X (id_format g) (code g) (fcard (unique_boards g))")
  case (Inl e)
  then show ?thesis by (simp add: annotate_board_format_error)
next
  case F: (Inr ident)
  show ?thesis
  proof (cases "\<exists>m\<in>set (legal_moves X b). reply_class X T b m = Inl AssertionError")
    case True
    then have "annotate_board X T g b = (Inl AssertionError, b)"
      by (rule annotate_board_child_assert [OF R F])
    then show ?thesis by simp
  next
    case False
    then have N: "\<forall>m\<in>set (legal_moves X b). reply_class X T b m \<noteq> Inl AssertionError"
      by blast
    from annotate_board_no_child_assert [OF R F N]
    show ?thesis by (auto split: if_splits)
  qed
qed

text \<open>
  C9. Classifying one reply leaves the board in its state before the move on every way
  out: whatever the classification is (winning, losing, or the failed assertion on the
  mate distance), the board after the call is the board before it, for every rules
  engine whose \<open>pop\<close> restores what \<open>push\<close> changed. So the board is the same for
  every reply of the loop over the legal moves, and after the annotation, whether it
  returns a record or raises.
\<close>

theorem board_restored_on_every_exit:
  "(pop X (push X b move) = b \<longrightarrow> (\<exists>r. child_dtm_if_lost X T b move = (r, b)))
   \<and> ((\<forall>m\<in>set moves. pop X (push X b m) = b)
        \<longrightarrow> snd (children_dtm X T b moves acc) = b)
   \<and> ((\<forall>m\<in>set (legal_moves X b). pop X (push X b m) = b)
        \<longrightarrow> snd (annotate_board X T g b) = b)"
proof -
  have 1: "pop X (push X b move) = b \<longrightarrow> (\<exists>r. child_dtm_if_lost X T b move = (r, b))"
    by (simp add: child_dtm_if_lost_def Let_def)
  have 2: "(\<forall>m\<in>set moves. pop X (push X b m) = b)
        \<longrightarrow> snd (children_dtm X T b moves acc) = b"
    using children_dtm_board [of moves X b T acc] by blast
  have 3: "(\<forall>m\<in>set (legal_moves X b). pop X (push X b m) = b)
        \<longrightarrow> snd (annotate_board X T g b) = b"
    using annotate_board_board [of X b T g] by blast
  show ?thesis by (rule conjI [OF 1 conjI [OF 2 3]])
qed

theorem board_restored_on_every_exit_witness:
  "pop toy (push toy (toy_board 10 5) (Quiet 2)) = toy_board 10 5
   \<and> child_dtm_if_lost toy (toy_tb (\<lambda>n. - 50) (\<lambda>n. 1)) (toy_board 10 5) (Quiet 2)
       = (Inl AssertionError, toy_board 10 5)
   \<and> child_dtm_if_lost toy tb_fast (toy_board 10 5) (Quiet 2)
       = (Inr (Some (- 1)), toy_board 10 5)
   \<and> child_dtm_if_lost toy tb_fast (toy_board 10 5) (Quiet 6)
       = (Inr None, toy_board 10 5)
   \<and> list_all (\<lambda>m. pop toy (push toy (toy_board 10 5) m) = toy_board 10 5)
        (legal_moves toy (toy_board 10 5))
   \<and> snd (children_dtm toy tb_fast (toy_board 10 5) (legal_moves toy (toy_board 10 5)) [])
       = toy_board 10 5
   \<and> snd (annotate_board toy tb_fast toy_gen (toy_board 10 5)) = toy_board 10 5
   \<and> annotate_board toy (toy_tb (\<lambda>n. - 50) (\<lambda>n. 1)) toy_gen (toy_board 10 5)
       = (Inl AssertionError, toy_board 10 5)"
proof -
  have h: "pop toy (push toy (toy_board 10 5) (Quiet 2)) = toy_board 10 5"
    by (simp add: toy_def toy_board_def)
  have l: "list_all (\<lambda>m. pop toy (push toy (toy_board 10 5) m) = toy_board 10 5)
        (legal_moves toy (toy_board 10 5))"
    using toy_restores [of 10] by (simp add: list_all_iff)
  note t = board_restored_on_every_exit [where X = toy and b = "toy_board 10 5"]
  have a: "fst (child_dtm_if_lost toy (toy_tb (\<lambda>n. - 50) (\<lambda>n. 1)) (toy_board 10 5) (Quiet 2))
      = Inl AssertionError"
    by (simp add: child_dtm_if_lost_def toy_def toy_board_def toy_tb_def)
  have w: "fst (child_dtm_if_lost toy tb_fast (toy_board 10 5) (Quiet 2)) = Inr (Some (- 1))"
    by (simp add: child_dtm_if_lost_def toy_def toy_board_def toy_tb_def tb_fast_def)
  have n: "fst (child_dtm_if_lost toy tb_fast (toy_board 10 5) (Quiet 6)) = Inr None"
    by (simp add: child_dtm_if_lost_def toy_def toy_board_def toy_tb_def tb_fast_def)
  have h6: "pop toy (push toy (toy_board 10 5) (Quiet 6)) = toy_board 10 5"
    by (simp add: toy_def toy_board_def)
  have c2: "snd (child_dtm_if_lost toy T (toy_board 10 5) (Quiet 2)) = toy_board 10 5" for T
  proof -
    from t [where move = "Quiet 2" and T = T]
    have "pop toy (push toy (toy_board 10 5) (Quiet 2)) = toy_board 10 5
      \<longrightarrow> (\<exists>r. child_dtm_if_lost toy T (toy_board 10 5) (Quiet 2) = (r, toy_board 10 5))"
      by (rule conjunct1)
    with h obtain r where "child_dtm_if_lost toy T (toy_board 10 5) (Quiet 2) = (r, toy_board 10 5)"
      by blast
    then show ?thesis by simp
  qed
  have c6: "snd (child_dtm_if_lost toy T (toy_board 10 5) (Quiet 6)) = toy_board 10 5" for T
  proof -
    from t [where move = "Quiet 6" and T = T]
    have "pop toy (push toy (toy_board 10 5) (Quiet 6)) = toy_board 10 5
      \<longrightarrow> (\<exists>r. child_dtm_if_lost toy T (toy_board 10 5) (Quiet 6) = (r, toy_board 10 5))"
      by (rule conjunct1)
    with h6 obtain r where "child_dtm_if_lost toy T (toy_board 10 5) (Quiet 6) = (r, toy_board 10 5)"
      by blast
    then show ?thesis by simp
  qed
  have 1: "child_dtm_if_lost toy (toy_tb (\<lambda>n. - 50) (\<lambda>n. 1)) (toy_board 10 5) (Quiet 2)
       = (Inl AssertionError, toy_board 10 5)"
    using a c2 by (simp add: prod_eq_iff)
  have 2: "child_dtm_if_lost toy tb_fast (toy_board 10 5) (Quiet 2)
       = (Inr (Some (- 1)), toy_board 10 5)"
    using w c2 by (simp add: prod_eq_iff)
  have 3: "child_dtm_if_lost toy tb_fast (toy_board 10 5) (Quiet 6)
       = (Inr None, toy_board 10 5)"
    using n c6 by (simp add: prod_eq_iff)
  have 4: "snd (children_dtm toy tb_fast (toy_board 10 5) (legal_moves toy (toy_board 10 5)) [])
       = toy_board 10 5"
    using t [where moves = "legal_moves toy (toy_board 10 5)" and T = tb_fast and acc = "[]"]
      toy_restores [of 10] by blast
  have 5: "snd (annotate_board toy tb_fast toy_gen (toy_board 10 5)) = toy_board 10 5"
    using t [where T = tb_fast and g = toy_gen] toy_restores [of 10] by blast
  have 6: "annotate_board toy (toy_tb (\<lambda>n. - 50) (\<lambda>n. 1)) toy_gen (toy_board 10 5)
       = (Inl AssertionError, toy_board 10 5)"
    by (simp add: toy_eval)
  show ?thesis
    by (rule conjI [OF h conjI [OF 1 conjI [OF 2 conjI [OF 3 conjI [OF l conjI [OF 4
          conjI [OF 5 6]]]]]]])
qed

subsection \<open>The sampling loop\<close>

lemma randint_range: "a \<le> b \<Longrightarrow> a \<le> randint a b e \<and> randint a b e \<le> b"
proof -
  assume ab: "a \<le> b"
  then have n: "0 < nat (b - a + 1)" by simp
  have "e mod nat (b - a + 1) < nat (b - a + 1)" using n by simp
  then have "int (e mod nat (b - a + 1)) < b - a + 1" using ab by linarith
  then show ?thesis by (simp add: randint_def)
qed

lemma randint_onto: "a \<le> c \<Longrightarrow> c \<le> b \<Longrightarrow> randint a b (nat (c - a)) = c"
  by (simp add: randint_def)

lemma residue_count:
  fixes n r k :: nat
  assumes "r < n"
  shows "card {e. e < k * n \<and> e mod n = r} = k"
proof -
  have n: "0 < n" using assms by simp
  have "{e. e < k * n \<and> e mod n = r} = (\<lambda>j. r + n * j) ` {..<k}"
  proof (rule set_eqI, rule iffI)
    fix e
    assume "e \<in> {e. e < k * n \<and> e mod n = r}"
    then have lt: "e < k * n" and m: "e mod n = r" by simp_all
    have d: "e div n < k" using lt n by (simp add: less_mult_imp_div_less)
    have "e = r + n * (e div n)" using m mult_div_mod_eq [of n e] by simp
    then show "e \<in> (\<lambda>j. r + n * j) ` {..<k}" using d by blast
  next
    fix e
    assume "e \<in> (\<lambda>j. r + n * j) ` {..<k}"
    then obtain j where j: "j < k" and e: "e = r + n * j" by blast
    have "r + n * j < n * Suc j" using assms by simp
    also have "\<dots> \<le> n * k"
    proof -
      have "Suc j \<le> k" using j by simp
      then show ?thesis by (rule mult_le_mono2)
    qed
    finally have "e < k * n" using e by (simp add: mult.commute)
    moreover have "e mod n = r" using e assms by simp
    ultimately show "e \<in> {e. e < k * n \<and> e mod n = r}" by simp
  qed
  moreover have "inj_on (\<lambda>j. r + n * j) {..<k}"
    using n by (simp add: inj_on_def)
  ultimately show ?thesis by (simp add: card_image)
qed

lemma randint_count:
  assumes "a \<le> c" and "c \<le> b"
  shows "card {e. e < k * nat (b - a + 1) \<and> randint a b e = c} = k"
proof -
  let ?n = "nat (b - a + 1)"
  have r: "nat (c - a) < ?n" using assms by simp
  have "randint a b e = c \<longleftrightarrow> e mod ?n = nat (c - a)" for e
    using assms by (auto simp add: randint_def)
  then have "{e. e < k * ?n \<and> randint a b e = c} = {e. e < k * ?n \<and> e mod ?n = nat (c - a)}"
    by simp
  then show ?thesis using residue_count [OF r, of k] by simp
qed

lemma sample_step_Some:
  assumes "sample_step X T g d = (g', Some b)"
  shows "is_valid X (b\<lparr>halfmove_clock := 0\<rparr>)
    \<and> 0 < probe_dtz T (b\<lparr>halfmove_clock := 0\<rparr>)
    \<and> probe_dtz T (b\<lparr>halfmove_clock := 0\<rparr>) \<le> 100
    \<and> halfmove_clock b
        = randint 0 (100 - probe_dtz T (b\<lparr>halfmove_clock := 0\<rparr>)) (entropy d)
    \<and> fen X b |\<notin>| unique_boards g
    \<and> g' = g\<lparr>unique_boards := finsert (fen X b) (unique_boards g)\<rparr>"
  using assms by (auto simp add: sample_step_def Let_def split: if_splits)

lemma sample_step_None:
  assumes "sample_step X T g d = (g', None)"
  shows "unique_boards g' = unique_boards g"
  using assms by (auto simp add: sample_step_def Let_def split: if_splits)

lemma generate_boards_mem:
  "generate_boards X T g ds = (bs, g') \<Longrightarrow> b \<in> set bs \<Longrightarrow>
     \<exists>g0 g1. \<exists>d\<in>set ds. sample_step X T g0 d = (g1, Some b)"
proof (induction ds arbitrary: g bs g')
  case Nil
  then show ?case by simp
next
  case (Cons d ds)
  obtain g1 r where s: "sample_step X T g d = (g1, r)" by (cases "sample_step X T g d")
  show ?case
  proof (cases r)
    case None
    then have "generate_boards X T g1 ds = (bs, g')" using Cons.prems(1) s by simp
    from Cons.IH [OF this Cons.prems(2)] show ?thesis by auto
  next
    case (Some b1)
    obtain bs1 g2 where t: "generate_boards X T g1 ds = (bs1, g2)"
      by (cases "generate_boards X T g1 ds")
    have bs: "bs = b1 # bs1" using Cons.prems(1) s Some t by simp
    show ?thesis
    proof (cases "b = b1")
      case True
      then show ?thesis using s Some by auto
    next
      case False
      then have "b \<in> set bs1" using Cons.prems(2) bs by simp
      from Cons.IH [OF t this] show ?thesis by auto
    qed
  qed
qed

lemma generate_boards_keys:
  "generate_boards X T g ds = (bs, g') \<Longrightarrow>
     distinct (map (fen X) bs)
     \<and> (\<forall>b\<in>set bs. fen X b |\<notin>| unique_boards g)
     \<and> unique_boards g' = unique_boards g |\<union>| fset_of_list (map (fen X) bs)"
proof (induction ds arbitrary: g bs g')
  case Nil
  then show ?case by simp
next
  case (Cons d ds)
  obtain g1 r where s: "sample_step X T g d = (g1, r)" by (cases "sample_step X T g d")
  show ?case
  proof (cases r)
    case None
    have u: "unique_boards g1 = unique_boards g" using s None by (simp add: sample_step_None)
    have "generate_boards X T g1 ds = (bs, g')" using Cons.prems s None by simp
    from Cons.IH [OF this] show ?thesis by (simp add: u)
  next
    case (Some b1)
    obtain bs1 g2 where t: "generate_boards X T g1 ds = (bs1, g2)"
      by (cases "generate_boards X T g1 ds")
    have bs: "bs = b1 # bs1" and g': "g' = g2" using Cons.prems s Some t by simp_all
    have n: "fen X b1 |\<notin>| unique_boards g"
      and u: "unique_boards g1 = finsert (fen X b1) (unique_boards g)"
      using sample_step_Some [of X T g d g1 b1] s Some by simp_all
    from Cons.IH [OF t] show ?thesis
      using n by (auto simp add: bs g' u)
  qed
qed


lemmas sample_eval = sample_step_def toy_def toy_tb_def toy_gen_def tb_sample_def toy_draws_def
  toy_board_def randint_def increment_def Let_def replicate_num

lemma toy_run:
  "fst (generate_boards toy tb_sample toy_gen toy_draws) = [toy_board 7 5, toy_board 0 6]"
  by (simp add: sample_eval)

lemma toy_run_stats:
  "map (stats (snd (generate_boards toy tb_sample toy_gen toy_draws)))
     [''invalid'', ''loss'', ''draw'', ''cursed_win'', ''duplicate''] = [1, 1, 1, 1, 2]"
  by (simp add: sample_eval)

text \<open>
  C2. For every board the sampling loop yields, the win distance \<open>dtz\<close> that the loop
  probed (on the board as placed, the clock still 0) satisfies \<open>0 < dtz \<le> 100\<close>; the
  clock of the board is the value of \<open>randint 0 (100 - dtz)\<close>, which lies in the range
  from 0 to \<open>100 - dtz\<close>, each value of the range being one that \<open>randint\<close> can return;
  so clock plus \<open>dtz\<close> is at most 100, and with \<open>dtz = 100\<close> the clock is 0. Where the
  tablebase answers the same for the board with its clock set, the bounds hold for that
  answer. A valid placement of win distance 100 whose key is new is yielded, with clock
  0. The draw is uniform: the random choices are an input of the model, and of the
  first \<open>k * (101 - dtz)\<close> values of the raw randomness exactly \<open>k\<close> give each value of
  the range, for every \<open>k\<close>, so that no value of the range is more likely than another.
\<close>

theorem sampled_clock_within_budget:
  assumes G: "generate_boards X T g ds = (bs, g')" and B: "b \<in> set bs"
  shows "(let dtz = probe_dtz T (b\<lparr>halfmove_clock := 0\<rparr>) in
           0 < dtz \<and> dtz \<le> 100
           \<and> 0 \<le> halfmove_clock b \<and> halfmove_clock b \<le> 100 - dtz
           \<and> halfmove_clock b + dtz \<le> 100
           \<and> (\<exists>d\<in>set ds. halfmove_clock b = randint 0 (100 - dtz) (entropy d))
           \<and> (\<forall>c. 0 \<le> c \<and> c \<le> 100 - dtz \<longrightarrow> (\<exists>e. randint 0 (100 - dtz) e = c))
           \<and> (\<forall>c k. 0 \<le> c \<and> c \<le> 100 - dtz \<longrightarrow>
                 card {e. e < k * nat (100 - dtz + 1) \<and> randint 0 (100 - dtz) e = c} = k)
           \<and> (dtz = 100 \<longrightarrow> halfmove_clock b = 0)
           \<and> (probe_dtz T b = dtz \<longrightarrow>
                0 < probe_dtz T b \<and> probe_dtz T b \<le> 100
                \<and> halfmove_clock b + probe_dtz T b \<le> 100))
    \<and> (\<forall>g0 d. let b0 = \<lparr>halfmove_clock = 0,
                          position = set_piece_map X (zip (squares d) (pieces g0))\<rparr> in
          is_valid X b0 \<and> probe_dtz T b0 = 100 \<and> fen X b0 |\<notin>| unique_boards g0 \<longrightarrow>
          sample_step X T g0 d
            = (g0\<lparr>unique_boards := finsert (fen X b0) (unique_boards g0)\<rparr>, Some b0))"
proof -
  let ?dtz = "probe_dtz T (b\<lparr>halfmove_clock := 0\<rparr>)"
  from generate_boards_mem [OF G B]
  obtain g0 g1 d where d: "d \<in> set ds" and s: "sample_step X T g0 d = (g1, Some b)"
    by blast
  from sample_step_Some [OF s]
  have z: "0 < ?dtz" "?dtz \<le> 100"
    and c: "halfmove_clock b = randint 0 (100 - ?dtz) (entropy d)"
    by simp_all
  have r: "0 \<le> halfmove_clock b \<and> halfmove_clock b \<le> 100 - ?dtz"
    unfolding c using z by (intro randint_range) simp
  have o: "\<forall>c. 0 \<le> c \<and> c \<le> 100 - ?dtz \<longrightarrow> (\<exists>e. randint 0 (100 - ?dtz) e = c)"
    using randint_onto [of 0 _ "100 - ?dtz"] by blast
  have u: "\<forall>c k. 0 \<le> c \<and> c \<le> 100 - ?dtz \<longrightarrow>
                 card {e. e < k * nat (100 - ?dtz + 1) \<and> randint 0 (100 - ?dtz) e = c} = k"
    using randint_count [of 0 _ "100 - ?dtz"] by simp
  have 1: "0 < ?dtz \<and> ?dtz \<le> 100
           \<and> 0 \<le> halfmove_clock b \<and> halfmove_clock b \<le> 100 - ?dtz
           \<and> halfmove_clock b + ?dtz \<le> 100
           \<and> (\<exists>d\<in>set ds. halfmove_clock b = randint 0 (100 - ?dtz) (entropy d))
           \<and> (\<forall>c. 0 \<le> c \<and> c \<le> 100 - ?dtz \<longrightarrow> (\<exists>e. randint 0 (100 - ?dtz) e = c))
           \<and> (\<forall>c k. 0 \<le> c \<and> c \<le> 100 - ?dtz \<longrightarrow>
                 card {e. e < k * nat (100 - ?dtz + 1) \<and> randint 0 (100 - ?dtz) e = c} = k)
           \<and> (?dtz = 100 \<longrightarrow> halfmove_clock b = 0)
           \<and> (probe_dtz T b = ?dtz \<longrightarrow>
                0 < probe_dtz T b \<and> probe_dtz T b \<le> 100
                \<and> halfmove_clock b + probe_dtz T b \<le> 100)"
    using z r o u c d by auto
  have 2: "\<forall>g0 d. let b0 = \<lparr>halfmove_clock = 0,
                          position = set_piece_map X (zip (squares d) (pieces g0))\<rparr> in
          is_valid X b0 \<and> probe_dtz T b0 = 100 \<and> fen X b0 |\<notin>| unique_boards g0 \<longrightarrow>
          sample_step X T g0 d
            = (g0\<lparr>unique_boards := finsert (fen X b0) (unique_boards g0)\<rparr>, Some b0)"
    by (simp add: sample_step_def Let_def randint_def)
  show ?thesis using 1 2 by (simp add: Let_def)
qed

theorem sampled_clock_within_budget_witness:
  "generate_boards toy tb_sample toy_gen toy_draws
     = (fst (generate_boards toy tb_sample toy_gen toy_draws),
        snd (generate_boards toy tb_sample toy_gen toy_draws))
   \<and> fst (generate_boards toy tb_sample toy_gen toy_draws) = [toy_board 7 5, toy_board 0 6]
   \<and> toy_board 7 5 \<in> set (fst (generate_boards toy tb_sample toy_gen toy_draws))
   \<and> probe_dtz tb_sample ((toy_board 7 5)\<lparr>halfmove_clock := 0\<rparr>) = 90
   \<and> probe_dtz tb_sample (toy_board 7 5) = 90
   \<and> halfmove_clock (toy_board 7 5)
       + probe_dtz tb_sample ((toy_board 7 5)\<lparr>halfmove_clock := 0\<rparr>) \<le> 100
   \<and> (\<exists>e. randint 0 (100 - probe_dtz tb_sample ((toy_board 7 5)\<lparr>halfmove_clock := 0\<rparr>)) e = 10)
   \<and> card {e. e < 3 * nat (100 - probe_dtz tb_sample ((toy_board 7 5)\<lparr>halfmove_clock := 0\<rparr>) + 1)
               \<and> randint 0 (100 - probe_dtz tb_sample ((toy_board 7 5)\<lparr>halfmove_clock := 0\<rparr>)) e
                   = 4} = 3"
proof -
  have g: "generate_boards toy tb_sample toy_gen toy_draws
     = (fst (generate_boards toy tb_sample toy_gen toy_draws),
        snd (generate_boards toy tb_sample toy_gen toy_draws))"
    by simp
  have m: "toy_board 7 5 \<in> set (fst (generate_boards toy tb_sample toy_gen toy_draws))"
    by (simp add: toy_run)
  have p: "probe_dtz tb_sample ((toy_board 7 5)\<lparr>halfmove_clock := 0\<rparr>) = 90"
    "probe_dtz tb_sample (toy_board 7 5) = 90"
    by (simp_all add: tb_sample_def toy_tb_def toy_board_def)
  note t = sampled_clock_within_budget [OF g m]
  have 1: "halfmove_clock (toy_board 7 5)
       + probe_dtz tb_sample ((toy_board 7 5)\<lparr>halfmove_clock := 0\<rparr>) \<le> 100"
    using t by (simp add: Let_def)
  have 2: "\<exists>e. randint 0 (100 - probe_dtz tb_sample ((toy_board 7 5)\<lparr>halfmove_clock := 0\<rparr>)) e = 10"
    using t by (simp add: Let_def p)
  have "\<forall>c k. 0 \<le> c \<and> c \<le> 100 - probe_dtz tb_sample ((toy_board 7 5)\<lparr>halfmove_clock := 0\<rparr>)
      \<longrightarrow> card {e. e < k * nat (100 - probe_dtz tb_sample
                      ((toy_board 7 5)\<lparr>halfmove_clock := 0\<rparr>) + 1)
               \<and> randint 0 (100 - probe_dtz tb_sample ((toy_board 7 5)\<lparr>halfmove_clock := 0\<rparr>)) e
                   = c} = k"
    using t by (simp only: Let_def) blast
  note q = this [rule_format, of 4 3]
  have 3: "card {e. e < 3 * nat (100 - probe_dtz tb_sample
                      ((toy_board 7 5)\<lparr>halfmove_clock := 0\<rparr>) + 1)
               \<and> randint 0 (100 - probe_dtz tb_sample ((toy_board 7 5)\<lparr>halfmove_clock := 0\<rparr>)) e
                   = 4} = 3"
    by (rule q) (simp add: p(1))
  show ?thesis
    by (rule conjI [OF g conjI [OF toy_run conjI [OF m conjI [OF p(1) conjI [OF p(2) conjI [OF 1
          conjI [OF 2 3]]]]]]])
qed


text \<open>
  C8. The keys (\<open>board.fen()\<close>, taken after the clock is assigned) of the boards the
  sampling loop yields are pairwise different and none was in the set of seen keys before;
  the set afterwards is the set before together with the keys of the yielded boards, so
  it only grows. A sampled board that passes the validity and win-distance tests and
  whose key is already in the set is not yielded: the turn of the loop yields nothing,
  the count of duplicates is one more than before, every other count and the set of
  seen keys are as before.
\<close>

theorem emitted_keys_are_distinct:
  assumes G: "generate_boards X T g ds = (bs, g')"
  shows "distinct (map (fen X) bs)
    \<and> (\<forall>b\<in>set bs. fen X b |\<notin>| unique_boards g)
    \<and> unique_boards g' = unique_boards g |\<union>| fset_of_list (map (fen X) bs)
    \<and> unique_boards g |\<subseteq>| unique_boards g'
    \<and> (\<forall>g0 d. let b0 = \<lparr>halfmove_clock = 0,
                          position = set_piece_map X (zip (squares d) (pieces g0))\<rparr>;
                   b1 = b0\<lparr>halfmove_clock := randint 0 (100 - probe_dtz T b0) (entropy d)\<rparr> in
          is_valid X b0 \<and> 0 < probe_dtz T b0 \<and> probe_dtz T b0 \<le> 100
          \<and> fen X b1 |\<in>| unique_boards g0 \<longrightarrow>
          sample_step X T g0 d = (g0\<lparr>stats := increment (stats g0) ''duplicate''\<rparr>, None)
          \<and> snd (sample_step X T g0 d) = None
          \<and> stats (fst (sample_step X T g0 d)) ''duplicate'' = stats g0 ''duplicate'' + 1
          \<and> (\<forall>k. k \<noteq> ''duplicate'' \<longrightarrow> stats (fst (sample_step X T g0 d)) k = stats g0 k)
          \<and> unique_boards (fst (sample_step X T g0 d)) = unique_boards g0)"
proof -
  note k = generate_boards_keys [OF G]
  have 1: "unique_boards g |\<subseteq>| unique_boards g'" using k by auto
  have 2: "\<forall>g0 d. let b0 = \<lparr>halfmove_clock = 0,
                          position = set_piece_map X (zip (squares d) (pieces g0))\<rparr>;
                   b1 = b0\<lparr>halfmove_clock := randint 0 (100 - probe_dtz T b0) (entropy d)\<rparr> in
          is_valid X b0 \<and> 0 < probe_dtz T b0 \<and> probe_dtz T b0 \<le> 100
          \<and> fen X b1 |\<in>| unique_boards g0 \<longrightarrow>
          sample_step X T g0 d = (g0\<lparr>stats := increment (stats g0) ''duplicate''\<rparr>, None)
          \<and> snd (sample_step X T g0 d) = None
          \<and> stats (fst (sample_step X T g0 d)) ''duplicate'' = stats g0 ''duplicate'' + 1
          \<and> (\<forall>k. k \<noteq> ''duplicate'' \<longrightarrow> stats (fst (sample_step X T g0 d)) k = stats g0 k)
          \<and> unique_boards (fst (sample_step X T g0 d)) = unique_boards g0"
    by (simp add: sample_step_def Let_def increment_def)
  show ?thesis using k 1 2 by blast
qed

theorem emitted_keys_are_distinct_witness:
  "generate_boards toy tb_sample toy_gen toy_draws
     = (fst (generate_boards toy tb_sample toy_gen toy_draws),
        snd (generate_boards toy tb_sample toy_gen toy_draws))
   \<and> fst (generate_boards toy tb_sample toy_gen toy_draws) = [toy_board 7 5, toy_board 0 6]
   \<and> distinct (map (fen toy) [toy_board 7 5, toy_board 0 6])
   \<and> unique_boards (snd (generate_boards toy tb_sample toy_gen toy_draws))
       = unique_boards toy_gen |\<union>| fset_of_list (map (fen toy) [toy_board 7 5, toy_board 0 6])
   \<and> fen toy (toy_board 10 5) |\<in>| unique_boards toy_gen
   \<and> sample_step toy tb_sample toy_gen \<lparr>squares = [0, 1, 4], entropy = 10\<rparr>
       = (toy_gen\<lparr>stats := increment (stats toy_gen) ''duplicate''\<rparr>, None)
   \<and> stats toy_gen ''duplicate'' = 0
   \<and> stats (fst (sample_step toy tb_sample toy_gen \<lparr>squares = [0, 1, 4], entropy = 10\<rparr>))
        ''duplicate'' = 1
   \<and> stats (fst (sample_step toy tb_sample toy_gen \<lparr>squares = [0, 1, 4], entropy = 10\<rparr>))
        ''invalid'' = 0
   \<and> stats (snd (generate_boards toy tb_sample toy_gen toy_draws)) ''duplicate'' = 2"
proof -
  have g: "generate_boards toy tb_sample toy_gen toy_draws
     = (fst (generate_boards toy tb_sample toy_gen toy_draws),
        snd (generate_boards toy tb_sample toy_gen toy_draws))"
    by simp
  note t = emitted_keys_are_distinct [OF g]
  have 1: "distinct (map (fen toy) [toy_board 7 5, toy_board 0 6])"
    using t by (simp add: toy_run)
  have 2: "unique_boards (snd (generate_boards toy tb_sample toy_gen toy_draws))
       = unique_boards toy_gen |\<union>| fset_of_list (map (fen toy) [toy_board 7 5, toy_board 0 6])"
    using t by (simp add: toy_run)
  have 3: "fen toy (toy_board 10 5) |\<in>| unique_boards toy_gen"
    by (simp add: toy_def toy_gen_def toy_board_def replicate_num)
  have 4: "sample_step toy tb_sample toy_gen \<lparr>squares = [0, 1, 4], entropy = 10\<rparr>
       = (toy_gen\<lparr>stats := increment (stats toy_gen) ''duplicate''\<rparr>, None)"
    by (simp add: sample_step_def toy_def toy_tb_def toy_gen_def tb_sample_def
        randint_def Let_def replicate_num)
  have 5: "stats toy_gen ''duplicate'' = 0" by (simp add: toy_gen_def)
  have 6: "stats (fst (sample_step toy tb_sample toy_gen \<lparr>squares = [0, 1, 4], entropy = 10\<rparr>))
        ''duplicate'' = 1"
    "stats (fst (sample_step toy tb_sample toy_gen \<lparr>squares = [0, 1, 4], entropy = 10\<rparr>))
        ''invalid'' = 0"
    by (simp_all add: sample_step_def toy_def toy_tb_def toy_gen_def tb_sample_def
        randint_def Let_def replicate_num increment_def)
  have 7: "stats (snd (generate_boards toy tb_sample toy_gen toy_draws)) ''duplicate'' = 2"
    using toy_run_stats by simp
  show ?thesis
    by (rule conjI [OF g conjI [OF toy_run conjI [OF 1 conjI [OF 2 conjI [OF 3 conjI [OF 4
          conjI [OF 5 conjI [OF 6(1) conjI [OF 6(2) 7]]]]]]]]])
qed

subsection \<open>What the constructor accepts\<close>

lemma re_rests_step:
  "t \<in> set (item_rests i s) \<Longrightarrow> u \<in> set (re_rests is t) \<Longrightarrow> u \<in> set (re_rests (i # is) s)"
  by auto

lemma run_split:
  assumes w: "takeWhile P r \<noteq> []" and dw: "dropWhile P r = k # bl"
  shows "\<exists>c w. r = c # w @ k # bl \<and> P c \<and> list_all P w"
proof -
  from w obtain c w' where tw: "takeWhile P r = c # w'"
    by (cases "takeWhile P r") auto
  have "takeWhile P r @ dropWhile P r = r" by (rule takeWhile_dropWhile_id)
  then have r: "r = c # w' @ k # bl" unfolding tw dw by simp
  have "\<forall>x\<in>set (takeWhile P r). P x" by (blast dest: set_takeWhileD)
  then have "\<forall>x\<in>set (c # w'). P x" unfolding tw .
  then have "P c" and "list_all P w'" by (simp_all add: list_all_iff)
  then show ?thesis using r by blast
qed

lemma star_rests_class:
  "list_all (\<lambda>x. x \<in> set cs) w \<Longrightarrow> t \<in> set (star_rests cs (w @ t))"
proof (induction w)
  case Nil
  then show ?case by (cases t) auto
next
  case (Cons a w)
  then show ?case by simp
qed


lemma signature_shape_split:
  assumes "signature_shape s"
  shows "\<exists>c w bl. s = CHR ''K'' # c # w @ CHR ''k'' # bl
    \<and> c \<in> set ''QRBNP'' \<and> list_all (\<lambda>x. x \<in> set ''QRBNP'') w
    \<and> list_all (\<lambda>x. x \<in> set ''qrbnp'') bl"
proof (cases s)
  case Nil
  then show ?thesis using assms by (simp only: signature_shape_def list.case)
next
  case (Cons a r)
  let ?W = "\<lambda>x. x \<in> set ''QRBNP''"
  have sh: "a = CHR ''K'' \<and> takeWhile ?W r \<noteq> [] \<and>
          (case dropWhile ?W r of
             [] \<Rightarrow> False
           | k # bl \<Rightarrow> k = CHR ''k'' \<and> list_all (\<lambda>x. x \<in> set ''qrbnp'') bl)"
    using assms unfolding Cons signature_shape_def list.case .
  then have a: "a = CHR ''K''" and w: "takeWhile ?W r \<noteq> []" by blast+
  show ?thesis
  proof (cases "dropWhile ?W r")
    case Nil
    from sh have "case dropWhile ?W r of [] \<Rightarrow> False
           | k # bl \<Rightarrow> k = CHR ''k'' \<and> list_all (\<lambda>x. x \<in> set ''qrbnp'') bl"
      by blast
    then have False unfolding Nil list.case .
    then show ?thesis ..
  next
    case (Cons k bl)
    from sh have "case dropWhile ?W r of [] \<Rightarrow> False
           | k # bl \<Rightarrow> k = CHR ''k'' \<and> list_all (\<lambda>x. x \<in> set ''qrbnp'') bl"
      by blast
    then have "k = CHR ''k'' \<and> list_all (\<lambda>x. x \<in> set ''qrbnp'') bl"
      unfolding Cons list.case .
    then have k: "k = CHR ''k''" and bl: "list_all (\<lambda>x. x \<in> set ''qrbnp'') bl"
      by blast+
    from run_split [OF w Cons]
    obtain c w' where "r = c # w' @ k # bl" "?W c" "list_all ?W w'" by blast
    then show ?thesis using a k bl \<open>s = a # r\<close> by blast
  qed
qed


lemma signature_shape_re_match:
  assumes "signature_shape s"
  shows "re_match code_pattern s"
proof -
  from signature_shape_split [OF assms]
  obtain c w bl where s: "s = CHR ''K'' # c # w @ CHR ''k'' # bl"
    and c: "c \<in> set ''QRBNP''" and w: "list_all (\<lambda>x. x \<in> set ''QRBNP'') w"
    and bl: "list_all (\<lambda>x. x \<in> set ''qrbnp'') bl"
    by blast
  have 4: "[] \<in> set (re_rests [StarOf ''qrbnp''] bl)"
  proof (rule re_rests_step)
    show "[] \<in> set (item_rests (StarOf ''qrbnp'') bl)"
      using star_rests_class [OF bl, of "[]"] by (simp only: item_rests.simps append_Nil2)
    show "[] \<in> set (re_rests [] [])" by simp
  qed
  have 3: "[] \<in> set (re_rests [Lit CHR ''k'', StarOf ''qrbnp''] (CHR ''k'' # bl))"
  proof (rule re_rests_step [OF _ 4])
    show "bl \<in> set (item_rests (Lit CHR ''k'') (CHR ''k'' # bl))"
      by (simp only: item_rests.simps if_True list.set insertI1 refl)
  qed
  have 2: "[] \<in> set (re_rests [PlusOf ''QRBNP'', Lit CHR ''k'', StarOf ''qrbnp'']
      (c # w @ CHR ''k'' # bl))"
  proof (rule re_rests_step [OF _ 3])
    show "CHR ''k'' # bl \<in> set (item_rests (PlusOf ''QRBNP'') (c # w @ CHR ''k'' # bl))"
      using star_rests_class [OF w, of "CHR ''k'' # bl"] c
      by (simp only: item_rests.simps if_True)
  qed
  have 1: "[] \<in> set (re_rests code_pattern s)"
    unfolding code_pattern_def s
  proof (rule re_rests_step [OF _ 2])
    show "c # w @ CHR ''k'' # bl
        \<in> set (item_rests (Lit CHR ''K'') (CHR ''K'' # c # w @ CHR ''k'' # bl))"
      by (simp only: item_rests.simps if_True list.set insertI1 refl)
  qed
  then have "re_rests code_pattern s \<noteq> []" by (cases "re_rests code_pattern s") simp_all
  then show ?thesis unfolding re_match_def .
qed

lemma those_map_Some:
  "\<forall>x\<in>set s. f x \<noteq> None \<Longrightarrow> \<exists>ps. those (map f s) = Some ps"
  by (induction s) auto

text \<open>
  Every string of the intended shape passes the assertion, and the generator is
  constructed from it when the library knows each of its piece symbols.
\<close>

lemma Generator_init_accepts_shape:
  assumes "signature_shape s" and "\<forall>x\<in>set s. from_symbol X x \<noteq> None"
  shows "\<exists>ps. Generator_init X s f
     = Inr \<lparr>code = s, pieces = ps, id_format = f, unique_boards = {||}, stats = (\<lambda>k. 0)\<rparr>"
proof -
  have m: "re_match code_pattern s" using assms(1) by (rule signature_shape_re_match)
  from those_map_Some [OF assms(2)]
  obtain ps where "those (map (from_symbol X) s) = Some ps" by blast
  then show ?thesis using m by (simp add: Generator_init_def)
qed

text \<open>
  C10 fails on the code. \<open>re.match\<close> only anchors the pattern at the start of the
  string, so the assertion passes for a string that continues after a prefix of the
  intended shape: \<open>KQkK\<close> and \<open>KQkQ\<close> do not have the shape, and the generator is
  constructed from them. (A trailing character that is no piece symbol still makes the
  construction fail, with the \<open>ValueError\<close> of \<open>from_symbol\<close>; a string without such
  a prefix fails the assertion.)
\<close>

theorem Generator_init_accepts_trailing_pieces:
  "\<not> signature_shape ''KQkK''
   \<and> re_match code_pattern ''KQkK''
   \<and> Generator_init toy ''KQkK'' ''{code}.{n:06d}''
     = Inr \<lparr>code = ''KQkK'', pieces = ''KQkK'', id_format = ''{code}.{n:06d}'',
            unique_boards = {||}, stats = (\<lambda>k. 0)\<rparr>
   \<and> \<not> signature_shape ''KQkQ''
   \<and> Generator_init toy ''KQkQ'' ''{code}.{n:06d}''
     = Inr \<lparr>code = ''KQkQ'', pieces = ''KQkQ'', id_format = ''{code}.{n:06d}'',
            unique_boards = {||}, stats = (\<lambda>k. 0)\<rparr>
   \<and> Generator_init toy ''KQkx'' ''{code}.{n:06d}'' = Inl ValueError
   \<and> Generator_init toy ''Kk'' ''{code}.{n:06d}'' = Inl AssertionError"
proof -
  have 1: "\<not> signature_shape ''KQkK''" "\<not> signature_shape ''KQkQ''"
    by (simp_all add: signature_shape_def)
  have 2: "re_match code_pattern ''KQkK''" "re_match code_pattern ''KQkQ''"
    by (simp_all add: re_match_def code_pattern_def)
  have 3: "Generator_init toy ''KQkK'' ''{code}.{n:06d}''
     = Inr \<lparr>code = ''KQkK'', pieces = ''KQkK'', id_format = ''{code}.{n:06d}'',
            unique_boards = {||}, stats = (\<lambda>k. 0)\<rparr>"
    by (simp add: Generator_init_def 2 toy_def)
  have 4: "Generator_init toy ''KQkQ'' ''{code}.{n:06d}''
     = Inr \<lparr>code = ''KQkQ'', pieces = ''KQkQ'', id_format = ''{code}.{n:06d}'',
            unique_boards = {||}, stats = (\<lambda>k. 0)\<rparr>"
    by (simp add: Generator_init_def 2 toy_def)
  have 5: "Generator_init toy ''KQkx'' ''{code}.{n:06d}'' = Inl ValueError"
    by (simp add: Generator_init_def re_match_def code_pattern_def toy_def)
  have 6: "Generator_init toy ''Kk'' ''{code}.{n:06d}'' = Inl AssertionError"
    by (simp add: Generator_init_def re_match_def code_pattern_def toy_def)
  show ?thesis
    by (rule conjI [OF 1(1) conjI [OF 2(1) conjI [OF 3 conjI [OF 1(2) conjI [OF 4 conjI [OF 5 6]]]]]])
qed

end
